theory Spec2Isabelle
  imports Complex_Main "HOL-Library.AList"
begin

section \<open>The trigger manager\<close>

text \<open>
  The class \<open>TriggerManager\<close> keeps its triggers in a JavaScript \<open>Map\<close> from the key
  string to the trigger object. A \<open>Map\<close> iterates in insertion order and \<open>set\<close> on a
  present key replaces the value where it stands, which is what \<^const>\<open>AList.update\<close>
  does on an association list; \<open>get\<close> is \<^const>\<open>map_of\<close>, \<open>delete\<close> is
  \<^const>\<open>AList.delete\<close>.

  The registry is modelled twice. For the methods that only the caller of the manager
  is involved in (\<open>register\<close>, \<open>get\<close>, \<open>setEnabled\<close>, the idle state and the two
  queries for due triggers) the map holds the trigger objects themselves, an object
  is named by its key, and a mutation of the object (\<open>trigger.enabled = ...\<close>) is
  \<^const>\<open>AList.map_entry\<close> at that key. The check cycle hands trigger objects to a
  callback that may do anything with them and with the manager while the cycle still
  holds them; there the objects live on a heap and the map holds their addresses.

  Instants (\<open>Date\<close>) are integers, the milliseconds since the epoch. A JavaScript
  number that is not an instant (the idle threshold, the idle minutes, the value of
  \<open>Math.random()\<close>) is the rational number the double stands for, and a division or
  multiplication of two numbers gives the double nearest to the exact result.
\<close>

subsection \<open>Numbers\<close>

text \<open>The number of binary digits of a positive integer.\<close>

function bitLength :: "int \<Rightarrow> nat" where
  "bitLength n = (if n \<le> 0 then 0 else Suc (bitLength (n div 2)))"
  by pat_completeness auto
termination
  by (relation "measure nat") auto

declare bitLength.simps [simp del]

definition pow2 :: "int \<Rightarrow> rat" where
  "pow2 e = (if 0 \<le> e then 2 ^ nat e else 1 / 2 ^ nat (- e))"

text \<open>The binary exponent of a positive rational \<open>a\<close>: the \<open>e\<close> with
  \<open>2^e \<le> a < 2^(e+1)\<close>. From the lengths of numerator and denominator it is known up to
  one, and the comparison decides.\<close>

definition exponentOf :: "rat \<Rightarrow> int" where
  "exponentOf a =
     (let (p, q) = quotient_of a;
          e0 = int (bitLength p) - int (bitLength q)
      in if pow2 e0 \<le> a then e0 else e0 - 1)"

text \<open>The nearest integer, the even one of the two when they are equally near.\<close>

definition roundHalfEven :: "rat \<Rightarrow> int" where
  "roundHalfEven q =
     (let f = \<lfloor>q\<rfloor>; r = q - of_int f
      in if r < 1 / 2 then f else if 1 / 2 < r then f + 1 else if even f then f else f + 1)"

text \<open>
  The double nearest to a rational (IEEE 754 binary64, round to nearest, ties to
  even): 53 significant binary digits, the unit in the last place being
  \<open>2^(e-52)\<close> for a number of exponent \<open>e\<close>, and \<open>2^(-1074)\<close> below \<open>2^(-1022)\<close>. The
  results formed here (a quotient of a difference of instants by 60000, a product of
  a number below 1 and the length of an array) are far below the largest double, so
  the overflow to \<open>Infinity\<close> is left out.
\<close>

definition toDouble :: "rat \<Rightarrow> rat" where
  "toDouble x =
     (if x = 0 then 0
      else (let a = \<bar>x\<bar>;
                e = max (exponentOf a) (- 1022);
                ulp = pow2 (e - 52)
            in sgn x * (of_int (roundHalfEven (a / ulp)) * ulp)))"

subsection \<open>Data\<close>

text \<open>
  Modelled from the spec: \<open>types.ts\<close>, which declares \<open>TriggerConfig\<close>,
  \<open>RegisteredTrigger\<close> and \<open>Clock\<close>, is not among the sources. The fields are the ones
  the manager reads and writes; \<open>cron\<close> and \<open>idleMinutes\<close> are optional, as the
  manager's tests \<open>config.cron\<close> and \<open>config.idleMinutes ?? 0\<close> treat them. The field
  \<open>ctype\<close> is the source's \<open>type\<close>, \<open>tid\<close> its \<open>id\<close>.
\<close>

datatype trigger_type = Cron | Idle

record trigger_config =
  ctype :: trigger_type
  cron :: "string option"
  idleMinutes :: "rat option"

record registered_trigger =
  tid :: string
  workspace :: string
  workflowPath :: string
  nodeId :: string
  label :: string
  config :: trigger_config
  enabled :: bool
  nextRun :: "int option"
  lastRun :: "int option"

text \<open>
  The manager's fields. The injected clock is a sequence of readings: \<open>clock s n\<close> is
  what the \<open>n\<close>-th call of \<open>clock.now()\<close> returns and \<open>ticks\<close> counts the calls made, so
  that time may pass (or not) between any two readings. The package \<open>cron-parser\<close> is
  not part of the repository: \<open>cronNext s expr base\<close> stands for
  \<open>CronExpressionParser.parse(expr, {currentDate: base, tz: 'UTC'}).next().toDate()\<close>,
  with \<open>Inl\<close> the message of the error it throws. The fire callback is not a field
  here: the check cycle, the only method that calls it, takes it as an argument.
\<close>

record manager =
  triggers :: "(string \<times> registered_trigger) list"
  clock :: "nat \<Rightarrow> int"
  ticks :: nat
  triggersFile :: "string option"
  idleSince :: "int option"
  cronNext :: "string \<Rightarrow> int \<Rightarrow> string + int"

subsection \<open>Clock, keys and cron\<close>

definition now :: "manager \<Rightarrow> int \<times> manager" where
  "now s = (clock s (ticks s), s\<lparr>ticks := Suc (ticks s)\<rparr>)"

definition getTriggerKey :: "string \<Rightarrow> string \<Rightarrow> string \<Rightarrow> string" where
  "getTriggerKey ws wp nid = ws @ '':'' @ wp @ '':'' @ nid"

text \<open>\<open>getNextRunTime(cronExpr, from?)\<close>: the base time is \<open>from\<close> when given (a \<open>Date\<close>
  is always truthy), else a reading of the clock. An error of the parser is thrown
  again as \<open>Invalid cron expression\<close>.\<close>

definition getNextRunTime :: "manager \<Rightarrow> string \<Rightarrow> int option \<Rightarrow> (string + int) \<times> manager" where
  "getNextRunTime s cronExpr from =
     (let (baseTime, s1) = (case from of Some d \<Rightarrow> (d, s) | None \<Rightarrow> now s)
      in (case cronNext s1 cronExpr baseTime of
            Inr d \<Rightarrow> (Inr d, s1)
          | Inl msg \<Rightarrow>
              (Inl (''Invalid cron expression '' @ [CHR 0x22] @ cronExpr @ [CHR 0x22] @ '': '' @ msg), s1)))"

subsection \<open>Registry\<close>

text \<open>\<open>config.type === 'cron' && config.cron\<close>: the expression is present and not the
  empty string.\<close>

definition cronOf :: "trigger_config \<Rightarrow> string option" where
  "cronOf c = (if ctype c = Cron then (case cron c of Some e \<Rightarrow> if e \<noteq> [] then Some e else None | None \<Rightarrow> None)
               else None)"

definition register ::
  "manager \<Rightarrow> string \<Rightarrow> string \<Rightarrow> string \<Rightarrow> string \<Rightarrow> trigger_config \<Rightarrow> registered_trigger \<times> manager" where
  "register s ws wp nid lbl cfg =
     (let k = getTriggerKey ws wp nid;
          (next, s1) = (case cronOf cfg of
                          Some e \<Rightarrow> (case getNextRunTime s e None of
                                       (Inr d, s') \<Rightarrow> (Some d, s')
                                     | (Inl err, s') \<Rightarrow> (None, s'))
                        | None \<Rightarrow> (None, s));
          trigger = \<lparr>tid = k, workspace = ws, workflowPath = wp, nodeId = nid, label = lbl,
                     config = cfg, enabled = True, nextRun = next,
                     lastRun = (case map_of (triggers s1) k of Some old \<Rightarrow> lastRun old | None \<Rightarrow> None)\<rparr>
      in (trigger, s1\<lparr>triggers := AList.update k trigger (triggers s1)\<rparr>))"

definition unregister :: "manager \<Rightarrow> string \<Rightarrow> string \<Rightarrow> string \<Rightarrow> bool \<times> manager" where
  "unregister s ws wp nid =
     (let k = getTriggerKey ws wp nid
      in (map_of (triggers s) k \<noteq> None, s\<lparr>triggers := AList.delete k (triggers s)\<rparr>))"

definition get :: "manager \<Rightarrow> string \<Rightarrow> string \<Rightarrow> string \<Rightarrow> registered_trigger option" where
  "get s ws wp nid = map_of (triggers s) (getTriggerKey ws wp nid)"

definition getAll :: "manager \<Rightarrow> registered_trigger list" where
  "getAll s = map snd (triggers s)"

definition setEnabled :: "manager \<Rightarrow> string \<Rightarrow> string \<Rightarrow> string \<Rightarrow> bool \<Rightarrow> bool \<times> manager" where
  "setEnabled s ws wp nid b =
     (case get s ws wp nid of
        None \<Rightarrow> (False, s)
      | Some trigger \<Rightarrow>
          (True, s\<lparr>triggers := AList.map_entry (getTriggerKey ws wp nid) (\<lambda>t. t\<lparr>enabled := b\<rparr>) (triggers s)\<rparr>))"

subsection \<open>Idle tracking\<close>

definition setIdle :: "bool \<Rightarrow> manager \<Rightarrow> manager" where
  "setIdle isIdle s =
     (if isIdle \<and> idleSince s = None then (let (n, s1) = now s in s1\<lparr>idleSince := Some n\<rparr>)
      else if \<not> isIdle \<and> idleSince s \<noteq> None then s\<lparr>idleSince := None\<rparr>
      else s)"

definition isIdle :: "manager \<Rightarrow> bool" where
  "isIdle s = (idleSince s \<noteq> None)"


subsection \<open>Due triggers\<close>

text \<open>The two filter callbacks, with the early returns of the source in their order.\<close>

definition dueCron :: "int \<Rightarrow> registered_trigger \<Rightarrow> bool" where
  "dueCron n trigger =
     (if \<not> enabled trigger then False
      else if ctype (config trigger) \<noteq> Cron then False
      else (case nextRun trigger of None \<Rightarrow> False | Some d \<Rightarrow> d \<le> n))"

definition dueIdle :: "rat \<Rightarrow> registered_trigger \<Rightarrow> bool" where
  "dueIdle idleMins trigger =
     (if \<not> enabled trigger then False
      else if ctype (config trigger) \<noteq> Idle then False
      else (let requiredMinutes = (case idleMinutes (config trigger) of Some m \<Rightarrow> m | None \<Rightarrow> 0)
            in idleMins \<ge> requiredMinutes))"

definition getDueTriggers :: "manager \<Rightarrow> registered_trigger list \<times> manager" where
  "getDueTriggers s = (let (n, s1) = now s in (filter (dueCron n) (getAll s1), s1))"


subsection \<open>The check cycle\<close>

text \<open>\<open>selectRandom\<close>: \<open>rnd\<close> is the value of \<open>Math.random()\<close>; the product with the length
  is rounded to a double before \<open>Math.floor\<close>. An index outside the array reads
  \<open>undefined\<close>, which the caller's test \<open>if (selectedTrigger)\<close> treats as \<open>null\<close>.\<close>

definition selectRandom :: "rat \<Rightarrow> 'a list \<Rightarrow> 'a option" where
  "selectRandom rnd ts =
     (if length ts = 0 then None
      else (let index = \<lfloor>toDouble (rnd * of_nat (length ts))\<rfloor>
            in if 0 \<le> index \<and> index < int (length ts) then Some (ts ! nat index) else None))"

text \<open>What awaiting the fire callback gives: the promise resolves, or it rejects
  (the callback threw) with an error.\<close>

datatype callback_outcome = Resolved | Rejected string

text \<open>
  The manager as the check cycle sees it. The trigger objects live on a heap,
  \<open>heap s a\<close> being the object at address \<open>a\<close>, and \<open>entries\<close> is the \<open>Map\<close> from the keys
  to the addresses of the objects; the arrays of the cycle hold addresses. The other
  fields are those of \<open>manager\<close>. \<open>outside\<close> is everything else the callback can reach,
  which the manager itself never touches.
\<close>

record 'w live_manager =
  heap :: "nat \<Rightarrow> registered_trigger"
  entries :: "(string \<times> nat) list"
  liveClock :: "nat \<Rightarrow> int"
  liveTicks :: nat
  liveFile :: "string option"
  liveIdleSince :: "int option"
  liveCronNext :: "string \<Rightarrow> int \<Rightarrow> string + int"
  outside :: 'w

text \<open>The manager with the objects in place of their addresses.\<close>

definition managerOf :: "'w live_manager \<Rightarrow> manager" where
  "managerOf s =
     \<lparr>triggers = map (\<lambda>(k, a). (k, heap s a)) (entries s), clock = liveClock s, ticks = liveTicks s,
      triggersFile = liveFile s, idleSince = liveIdleSince s, cronNext = liveCronNext s\<rparr>"

text \<open>
  \<open>await this.onTriggerFire(trigger)\<close> with the trigger at address \<open>a\<close> in state \<open>s\<close> is
  \<open>cb a s\<close>: the outcome, and the state when the await returns. \<open>cb\<close> is any function:
  the callback that is registered at that moment (which one it is belongs to
  \<open>outside\<close>), and whatever else runs before the await returns, may call every method
  of the manager, assign every field of every trigger object and change the map.
  \<open>onFire\<close> can install a callback and the class has no way to remove one, so whether
  there is a callback does not change during a cycle: the argument of the cycle is
  \<open>None\<close> when none was ever registered.
\<close>

type_synonym 'w callback = "nat \<Rightarrow> 'w live_manager \<Rightarrow> callback_outcome \<times> 'w live_manager"

definition liveNow :: "'w live_manager \<Rightarrow> int \<times> 'w live_manager" where
  "liveNow s = (liveClock s (liveTicks s), s\<lparr>liveTicks := Suc (liveTicks s)\<rparr>)"

text \<open>\<open>getNextRunTime(cronExpr)\<close> as \<open>markFired\<close> calls it, without a base time.\<close>

definition liveNextRunTime :: "'w live_manager \<Rightarrow> string \<Rightarrow> (string + int) \<times> 'w live_manager" where
  "liveNextRunTime s cronExpr =
     (let (baseTime, s1) = liveNow s
      in (case liveCronNext s1 cronExpr baseTime of
            Inr d \<Rightarrow> (Inr d, s1)
          | Inl msg \<Rightarrow>
              (Inl (''Invalid cron expression '' @ [CHR 0x22] @ cronExpr @ [CHR 0x22] @ '': '' @ msg), s1)))"

text \<open>\<open>markFired(trigger)\<close> assigns \<open>lastRun\<close> and, for a cron trigger, \<open>nextRun\<close> of the
  object it is given, wherever else that object is referred to.\<close>

definition markFired :: "nat \<Rightarrow> 'w live_manager \<Rightarrow> 'w live_manager" where
  "markFired a s =
     (let (n, s1) = liveNow s;
          s2 = s1\<lparr>heap := (heap s1)(a := (heap s1 a)\<lparr>lastRun := Some n\<rparr>)\<rparr>
      in (case cronOf (config (heap s2 a)) of
            Some e \<Rightarrow> (case liveNextRunTime s2 e of
                         (Inr d, s3) \<Rightarrow> s3\<lparr>heap := (heap s3)(a := (heap s3 a)\<lparr>nextRun := Some d\<rparr>)\<rparr>
                       | (Inl err, s3) \<Rightarrow> s3\<lparr>heap := (heap s3)(a := (heap s3 a)\<lparr>nextRun := None\<rparr>)\<rparr>)
          | None \<Rightarrow> s2))"

definition liveIdleDuration :: "'w live_manager \<Rightarrow> int \<times> 'w live_manager" where
  "liveIdleDuration s =
     (case liveIdleSince s of
        None \<Rightarrow> (0, s)
      | Some since \<Rightarrow> (let (n, s1) = liveNow s in (n - since, s1)))"

text \<open>\<open>getDueTriggers()\<close> and \<open>getDueIdleTriggers()\<close>: the arrays they return hold the
  objects of the map, here their addresses.\<close>

definition dueCronRefs :: "'w live_manager \<Rightarrow> nat list \<times> 'w live_manager" where
  "dueCronRefs s = (let (n, s1) = liveNow s in (filter (\<lambda>a. dueCron n (heap s1 a)) (map snd (entries s1)), s1))"

definition dueIdleRefs :: "'w live_manager \<Rightarrow> nat list \<times> 'w live_manager" where
  "dueIdleRefs s =
     (case liveIdleSince s of
        None \<Rightarrow> ([], s)
      | Some since \<Rightarrow>
          (let (d, s1) = liveIdleDuration s;
               idleMins = toDouble (of_int d / (60 * 1000))
           in (filter (\<lambda>a. dueIdle idleMins (heap s1 a)) (map snd (entries s1)), s1)))"

text \<open>\<open>save()\<close> returns at once when persistence is off. Otherwise it creates the
  directory, reads the clock for \<open>lastUpdated\<close> and writes the file; every error is
  caught. The file system is outside the model: \<open>mkdirOk\<close> says whether \<open>fs.mkdir\<close>
  succeeded, and the only effect on the manager is the reading of the clock.\<close>

definition save :: "bool \<Rightarrow> 'w live_manager \<Rightarrow> 'w live_manager" where
  "save mkdirOk s =
     (case liveFile s of
        None \<Rightarrow> s
      | Some file \<Rightarrow> if mkdirOk then snd (liveNow s) else s)"

text \<open>The loop over the due cron triggers of \<open>checkAndFire\<close>; \<open>fired\<close> is the array
  \<open>firedTriggers\<close>. Every \<open>try\<close> of the source is a \<open>case\<close> on the outcome of the
  callback, and no branch throws.\<close>

fun fireCronTriggers ::
  "'w callback option \<Rightarrow> nat list \<Rightarrow> 'w live_manager \<Rightarrow> nat list \<Rightarrow> 'w live_manager \<times> nat list" where
  "fireCronTriggers onTriggerFire [] s fired = (s, fired)"
| "fireCronTriggers onTriggerFire (trigger # rest) s fired =
     (case onTriggerFire of
        Some cb \<Rightarrow>
          (case cb trigger s of
             (Resolved, s1) \<Rightarrow> fireCronTriggers onTriggerFire rest (markFired trigger s1) (fired @ [trigger])
           | (Rejected err, s1) \<Rightarrow> fireCronTriggers onTriggerFire rest s1 fired)
      | None \<Rightarrow> fireCronTriggers onTriggerFire rest (markFired trigger s) (fired @ [trigger]))"

text \<open>The second block of \<open>checkAndFire\<close>: one of the due idle triggers, chosen at
  random, is fired. The message logged before the callback reads the clock
  (\<open>getIdleDuration()\<close>); logging itself is not modelled.\<close>

definition fireIdleTrigger ::
  "'w callback option \<Rightarrow> rat \<Rightarrow> nat list \<Rightarrow> 'w live_manager \<Rightarrow> nat list \<Rightarrow> 'w live_manager \<times> nat list" where
  "fireIdleTrigger onTriggerFire rnd dueIdleTriggers s fired =
     (if length dueIdleTriggers > 0 then
        (case selectRandom rnd dueIdleTriggers of
           None \<Rightarrow> (s, fired)
         | Some selectedTrigger \<Rightarrow>
             (case onTriggerFire of
                Some cb \<Rightarrow>
                  (let (d, s1) = liveIdleDuration s
                   in (case cb selectedTrigger s1 of
                         (Resolved, s2) \<Rightarrow> (markFired selectedTrigger s2, fired @ [selectedTrigger])
                       | (Rejected err, s2) \<Rightarrow> (s2, fired)))
              | None \<Rightarrow> (markFired selectedTrigger s, fired @ [selectedTrigger])))
      else (s, fired))"

text \<open>The state after the loop over the due cron triggers, and \<open>checkAndFire()\<close>: the
  array it returns and the state it leaves.\<close>

definition afterCron :: "'w callback option \<Rightarrow> 'w live_manager \<Rightarrow> 'w live_manager" where
  "afterCron onTriggerFire s =
     (let (dueCronTriggers, s1) = dueCronRefs s
      in fst (fireCronTriggers onTriggerFire dueCronTriggers s1 []))"

definition checkAndFire ::
  "'w callback option \<Rightarrow> rat \<Rightarrow> bool \<Rightarrow> 'w live_manager \<Rightarrow> nat list \<times> 'w live_manager" where
  "checkAndFire onTriggerFire rnd mkdirOk s =
     (let (dueCronTriggers, s1) = dueCronRefs s;
          (s2, fired) = fireCronTriggers onTriggerFire dueCronTriggers s1 [];
          (dueIdleTriggers, s3) = dueIdleRefs s2;
          (s4, fired') = fireIdleTrigger onTriggerFire rnd dueIdleTriggers s3 fired;
          s5 = (if length fired' > 0 then save mkdirOk s4 else s4)
      in (fired', s5))"

section \<open>The graph executor\<close>

text \<open>
  The \<open>POST /\<close> handler of \<open>routes/execute.ts\<close>: it walks the workflow graph breadth
  first from its start nodes, substitutes the template references of each node from
  the outputs produced so far, executes the node and stops at the first node that
  fails.

  \<^item> A JavaScript string is a list of code units, and the type \<open>char\<close> holds the code
    units below 256, the characters of Latin-1. Among them the white space of regular
    expressions and of \<open>trim\<close> is tab, line feed, vertical tab, form feed, carriage
    return, space and the no-break space (160); \<open>toLowerCase\<close> maps \<open>A\<close> to \<open>Z\<close> (65 to 90)
    and the capital letters 192 to 214 and 216 to 222 to the letter 32 code units
    further on and leaves every other code unit alone.
  \<^item> A \<open>Map\<close> is an association list in insertion order; \<open>Map.set\<close> on a key that is
    present replaces the value where it stands (\<open>AList.update\<close>).
  \<^item> The shell is a parameter: \<open>spawn\<close> takes the command, the working directory and
    the state of the outside world, and gives what the child process did and the world
    after it. Awaiting a promise is the function call.
  \<^item> \<open>startTime\<close> and \<open>endTime\<close> of a result are left out; no property below reads
    them. The \<open>error\<close> message of a result, which the source builds from the exit code
    alone, is the value \<open>CommandFailed code\<close>.
  \<^item> A request whose \<open>nodes\<close> or \<open>edges\<close> is missing or not an array has \<open>None\<close> there.
    A response with status 400 is \<open>Inl\<close> of its message.
\<close>

subsection \<open>Strings\<close>

definition isSpace :: "char \<Rightarrow> bool" where
  "isSpace c \<longleftrightarrow> c \<in> {CHR 0x09, CHR 0x0A, CHR 0x0B, CHR 0x0C, CHR 0x0D, CHR '' '', CHR 0xA0}"

text \<open>The character class \<open>[a-zA-Z0-9_-]\<close>.\<close>

definition isIdentChar :: "char \<Rightarrow> bool" where
  "isIdentChar c \<longleftrightarrow>
     (let n = (of_char c :: nat)
      in (97 \<le> n \<and> n \<le> 122) \<or> (65 \<le> n \<and> n \<le> 90) \<or> (48 \<le> n \<and> n \<le> 57)
         \<or> c = CHR ''_'' \<or> c = CHR ''-'')"

text \<open>A capital letter becomes the small one, 32 code units further on: in each of the
  three ranges the bit of weight 32 is clear, and it is set.\<close>

fun toLowerChar :: "char \<Rightarrow> char" where
  "toLowerChar (Char b0 b1 b2 b3 b4 b5 b6 b7) =
     (let n = (of_char (Char b0 b1 b2 b3 b4 b5 b6 b7) :: nat)
      in if (65 \<le> n \<and> n \<le> 90) \<or> (192 \<le> n \<and> n \<le> 214) \<or> (216 \<le> n \<and> n \<le> 222)
         then Char b0 b1 b2 b3 b4 True b6 b7 else Char b0 b1 b2 b3 b4 b5 b6 b7)"

definition toLowerCase :: "string \<Rightarrow> string" where
  "toLowerCase s = map toLowerChar s"

definition trim :: "string \<Rightarrow> string" where
  "trim s = rev (dropWhile isSpace (rev (dropWhile isSpace s)))"

text \<open>Splitting at the line feeds, \<open>lines.join(sep)\<close> and \<open>s.startsWith(p)\<close>.\<close>

fun split_nl :: "string \<Rightarrow> string list" where
  "split_nl [] = [[]]"
| "split_nl (c # cs) =
     (if c = CHR 0x0A then [] # split_nl cs
      else (case split_nl cs of l # ls \<Rightarrow> (c # l) # ls | [] \<Rightarrow> [[c]]))"

fun join :: "string \<Rightarrow> string list \<Rightarrow> string" where
  "join sep [] = []"
| "join sep [x] = x"
| "join sep (x # y # ys) = x @ sep @ join sep (y # ys)"

definition startsWith :: "string \<Rightarrow> string \<Rightarrow> bool" where
  "startsWith s p \<longleftrightarrow> take (length p) s = p"

text \<open>Replacing, in the whole string, every match of one or more white space
  characters by an underscore: every maximal run of white space becomes one
  underscore.\<close>

function collapseSpaces :: "string \<Rightarrow> string" where
  "collapseSpaces [] = []"
| "collapseSpaces (c # cs) =
     (if isSpace c then CHR ''_'' # collapseSpaces (dropWhile isSpace cs)
      else c # collapseSpaces cs)"
  by pat_completeness auto
termination
  by (relation "measure length") (auto simp: length_dropWhile_le less_Suc_eq_le)

subsection \<open>Template references\<close>

record execution_context =
  outputs :: "(string \<times> string) list"
  nodeLabels :: "(string \<times> string) list"

text \<open>
  One attempt of the template expression at the start of \<open>s\<close>: two opening braces,
  any white space, an identifier of one or more characters of \<open>[a-zA-Z0-9_-]\<close> (the
  captured group), the text \<open>.output\<close>, any white space, two closing braces. The result
  is the matched text, the captured identifier and what follows the match.
  Every quantifier of the expression is followed by a character outside its class (an
  identifier character is no white space, the dot is no identifier character, the
  closing brace is no white space), so the greedy choice is the only one that can
  match and nothing is lost by not backtracking.
\<close>

definition matchTemplate :: "string \<Rightarrow> (string \<times> string \<times> string) option" where
  "matchTemplate s =
     (if take 2 s = ''{{'' then
        (let r1 = dropWhile isSpace (drop 2 s);
             identifier = takeWhile isIdentChar r1;
             r2 = dropWhile isIdentChar r1
         in if identifier = [] then None
            else if take 7 r2 = ''.output'' then
              (let r3 = dropWhile isSpace (drop 7 r2)
               in if take 2 r3 = ''}}''
                  then Some (take (length s - length (drop 2 r3)) s, identifier, drop 2 r3)
                  else None)
            else None)
      else None)"

text \<open>The loop over \<open>context.nodeLabels\<close> in the replacement callback: the first node,
  in the order of the map, whose label matches and that has an output.\<close>

fun findByLabel :: "(string \<times> string) list \<Rightarrow> (string \<times> string) list \<Rightarrow> string \<Rightarrow> string option" where
  "findByLabel [] outs identifier = None"
| "findByLabel ((k, lbl) # rest) outs identifier =
     (let normalizedLabel = collapseSpaces (toLowerCase lbl)
      in if normalizedLabel = toLowerCase identifier \<or> lbl = identifier then
           (case map_of outs k of
              Some out \<Rightarrow> Some out
            | None \<Rightarrow> findByLabel rest outs identifier)
         else findByLabel rest outs identifier)"

text \<open>The replacement callback. \<open>context.outputs.get(k) || ''\<close> is the stored string,
  the empty one included.\<close>

definition replacer :: "execution_context \<Rightarrow> string \<Rightarrow> string \<Rightarrow> string" where
  "replacer ctx match identifier =
     (case map_of (outputs ctx) identifier of
        Some out \<Rightarrow> out
      | None \<Rightarrow>
          (case findByLabel (nodeLabels ctx) (outputs ctx) identifier of
             Some out \<Rightarrow> out
           | None \<Rightarrow> match))"

lemma matchTemplate_rest:
  assumes "matchTemplate s = Some (m, identifier, rest)"
  shows "length rest < length s \<and> s = m @ rest"
proof -
  have s2: "take 2 s = ''{{''"
    using assms by (simp add: matchTemplate_def split: if_splits)
  define r1 where "r1 = dropWhile isSpace (drop 2 s)"
  define r2 where "r2 = dropWhile isIdentChar r1"
  define r3 where "r3 = dropWhile isSpace (drop 7 r2)"
  have rest: "rest = drop 2 r3" and m: "m = take (length s - length rest) s"
    using assms s2 by (auto simp: matchTemplate_def Let_def r1_def r2_def r3_def split: if_splits)
  have "s = take 2 s @ drop 2 s" by simp
  also have "drop 2 s = takeWhile isSpace (drop 2 s) @ r1" by (simp add: r1_def)
  also have "r1 = takeWhile isIdentChar r1 @ r2" by (simp add: r2_def)
  also have "r2 = take 7 r2 @ drop 7 r2" by simp
  also have "drop 7 r2 = takeWhile isSpace (drop 7 r2) @ r3" by (simp add: r3_def)
  also have "r3 = take 2 r3 @ rest" by (simp add: rest)
  finally have p: "s = (take 2 s @ takeWhile isSpace (drop 2 s) @ takeWhile isIdentChar r1
                         @ take 7 r2 @ takeWhile isSpace (drop 7 r2) @ take 2 r3) @ rest"
    by simp
  define p where "p = take 2 s @ takeWhile isSpace (drop 2 s) @ takeWhile isIdentChar r1
                         @ take 7 r2 @ takeWhile isSpace (drop 7 r2) @ take 2 r3"
  have sp: "s = p @ rest" using p by (simp add: p_def)
  have "length p \<ge> 2" using s2 by (simp add: p_def)
  moreover have "length s = length p + length rest" using arg_cong[OF sp, of length] by simp
  ultimately have lt: "length rest < length s" by linarith
  have "m = p" using sp by (simp add: m)
  then show ?thesis using lt sp by simp
qed

lemma matchTemplate_shorter:
  "matchTemplate s = Some (m, identifier, rest) \<Longrightarrow> length rest < length s"
  by (drule matchTemplate_rest) (rule conjunct1)

text \<open>\<open>text.replace(templateRegex, callback)\<close> with the \<open>g\<close> flag: the text is scanned
  from the left; where the expression matches, the match is replaced by what the
  callback returns and the scan goes on behind the match (the replacement is not
  scanned again); where it does not, the character is kept.\<close>

function replaceTemplates :: "string \<Rightarrow> execution_context \<Rightarrow> string" where
  "replaceTemplates [] ctx = []"
| "replaceTemplates (c # cs) ctx =
     (case matchTemplate (c # cs) of
        Some (m, identifier, rest) \<Rightarrow> replacer ctx m identifier @ replaceTemplates rest ctx
      | None \<Rightarrow> c # replaceTemplates cs ctx)"
  by pat_completeness auto
termination
  by (relation "measure (\<lambda>(s, ctx). length s)") (auto dest: matchTemplate_shorter)

subsection \<open>Nodes, edges and results\<close>

text \<open>\<open>node_id\<close> is the \<open>id\<close> of a node, \<open>ntype\<close> its \<open>type\<close>, \<open>dlabel\<close> the \<open>label\<close> of its
  data; \<open>resultNodeId\<close>, \<open>nodeOutput\<close> and \<open>nodeError\<close> are the \<open>nodeId\<close>, \<open>output\<close> and
  \<open>error\<close> of a result. An optional field that is absent is \<open>None\<close>.\<close>

record node_data =
  dlabel :: "string option"
  nodeType :: "string option"
  commands :: "string list option"
  prompt :: "string option"
  path :: "string option"

record workflow_node =
  node_id :: string
  ntype :: string
  data :: node_data

record workflow_edge =
  eid :: string
  source :: string
  target :: string

datatype node_status = Pending | Running | Completed | Failed

datatype node_error = CommandFailed int

record node_result =
  resultNodeId :: string
  status :: node_status
  nodeOutput :: "string option"
  nodeError :: "node_error option"
  exitCode :: "int option"

record execute_request =
  nodes :: "workflow_node list option"
  edges :: "workflow_edge list option"
  rootDirectory :: "string option"
  startNodeId :: "string option"

record execute_response =
  success :: bool
  results :: "node_result list"
  executionOrder :: "string list"

text \<open>What a child process does: it closes with what it wrote to its two streams and
  its exit code (\<open>null\<close> when a signal ended it), or it cannot be started.\<close>

datatype proc_outcome = Closed string string "int option" | SpawnError string

type_synonym 'w spawn = "string \<Rightarrow> string \<Rightarrow> 'w \<Rightarrow> proc_outcome \<times> 'w"

text \<open>\<open>x || d\<close> on an optional string: the empty string is falsy.\<close>

definition orElse :: "string option \<Rightarrow> string \<Rightarrow> string" where
  "orElse x d = (case x of Some s \<Rightarrow> if s \<noteq> [] then s else d | None \<Rightarrow> d)"

definition buildAdjacencyMap :: "workflow_edge list \<Rightarrow> (string \<times> string list) list" where
  "buildAdjacencyMap es =
     foldl (\<lambda>adjacency edge.
              AList.map_entry (source edge) (\<lambda>ts. ts @ [target edge])
                (if map_of adjacency (source edge) = None
                 then AList.update (source edge) [] adjacency else adjacency))
           [] es"

definition processNodeTemplates :: "workflow_node \<Rightarrow> execution_context \<Rightarrow> workflow_node" where
  "processNodeTemplates node ctx =
     node\<lparr>data := (data node)
       \<lparr>commands := (case commands (data node) of
                       Some cmds \<Rightarrow> Some (map (\<lambda>cmd. replaceTemplates cmd ctx) cmds)
                     | None \<Rightarrow> None),
        prompt := (case prompt (data node) of
                     Some p \<Rightarrow> Some (if p \<noteq> [] then replaceTemplates p ctx else p)
                   | None \<Rightarrow> None),
        path := (case path (data node) of
                   Some p \<Rightarrow> Some (if p \<noteq> [] then replaceTemplates p ctx else p)
                 | None \<Rightarrow> None)\<rparr>\<rparr>"

definition findTriggerNodes :: "workflow_node list \<Rightarrow> workflow_edge list \<Rightarrow> string list" where
  "findTriggerNodes ns es =
     (let hasIncoming = set (map target es);
          trigs = filter (\<lambda>n. nodeType (data n) = Some ''trigger'' \<or> ntype n = ''trigger'') ns
      in if length trigs > 0 then map node_id trigs
         else map node_id (filter (\<lambda>n. node_id n \<notin> hasIncoming) ns))"

subsection \<open>Executing one node\<close>

definition executeShellCommand :: "'w spawn \<Rightarrow> string \<Rightarrow> string \<Rightarrow> 'w \<Rightarrow> (string \<times> int) \<times> 'w" where
  "executeShellCommand sp command cwd w =
     (case sp command cwd w of
        (Closed stdout stderr code, w') \<Rightarrow>
          ((trim (stdout @ (if stderr \<noteq> [] then [CHR 0x0A] @ ''[stderr]'' @ [CHR 0x0A] @ stderr else [])),
            (case code of Some c \<Rightarrow> c | None \<Rightarrow> 0)), w')
      | (SpawnError msg, w') \<Rightarrow> ((''Failed to start process: '' @ msg, 1), w'))"

text \<open>The loop over the commands of a shell node, with the outputs collected so far
  and the last exit code: a blank command is skipped, a command that exits with a code
  other than 0 ends the loop.\<close>

fun runCommands ::
  "'w spawn \<Rightarrow> string \<Rightarrow> string list \<Rightarrow> string list \<Rightarrow> int \<Rightarrow> 'w
     \<Rightarrow> (node_status \<times> string list \<times> int) \<times> 'w" where
  "runCommands sp cwd [] outs lastExitCode w = ((Completed, outs, lastExitCode), w)"
| "runCommands sp cwd (command # rest) outs lastExitCode w =
     (if trim command = [] then runCommands sp cwd rest outs lastExitCode w
      else (case executeShellCommand sp command cwd w of
              ((out, code), w') \<Rightarrow>
                (let outs' = outs @ [''$ '' @ command @ [CHR 0x0A] @ out]
                 in if code \<noteq> 0 then ((Failed, outs', code), w')
                    else runCommands sp cwd rest outs' code w')))"

text \<open>\<open>executeNode(node, rootDirectory)\<close>; \<open>processCwd\<close> is \<open>process.cwd()\<close>.\<close>

definition executeNode ::
  "'w spawn \<Rightarrow> string \<Rightarrow> workflow_node \<Rightarrow> string \<Rightarrow> 'w \<Rightarrow> node_result \<times> 'w" where
  "executeNode sp processCwd node rootDir w =
     (let nodeType' = orElse (nodeType (data node)) (ntype node);
          cwd = orElse (path (data node)) (if rootDir \<noteq> [] then rootDir else processCwd)
      in if nodeType' = ''shell'' then
           (let cmds = (case commands (data node) of Some cs \<Rightarrow> cs | None \<Rightarrow> [])
            in if length cmds = 0 then
                 (\<lparr>resultNodeId = node_id node, status = Completed,
                   nodeOutput = Some ''(no commands to execute)'', nodeError = None, exitCode = None\<rparr>, w)
               else
                 (case runCommands sp cwd cmds [] 0 w of
                    ((Failed, outs, code), w') \<Rightarrow>
                      (\<lparr>resultNodeId = node_id node, status = Failed,
                        nodeOutput = Some (join [CHR 0x0A, CHR 0x0A] outs),
                        nodeError = Some (CommandFailed code), exitCode = Some code\<rparr>, w')
                  | ((st, outs, code), w') \<Rightarrow>
                      (\<lparr>resultNodeId = node_id node, status = Completed,
                        nodeOutput = Some (join [CHR 0x0A, CHR 0x0A] outs),
                        nodeError = None, exitCode = Some code\<rparr>, w')))
         else if nodeType' = ''trigger'' then
           (\<lparr>resultNodeId = node_id node, status = Completed, nodeOutput = Some ''Trigger activated'',
             nodeError = None, exitCode = None\<rparr>, w)
         else if nodeType' = ''workdir'' then
           (\<lparr>resultNodeId = node_id node, status = Completed,
             nodeOutput = Some (''Working directory: '' @ orElse (path (data node)) ''(not set)''),
             nodeError = None, exitCode = None\<rparr>, w)
         else
           (\<lparr>resultNodeId = node_id node, status = Completed,
             nodeOutput = Some (''Node type '' @ [CHR 0x27] @ nodeType' @ [CHR 0x27] @ '' execution not yet implemented''),
             nodeError = None, exitCode = None\<rparr>, w))"

text \<open>What the traversal stores of an output: the lines that do not start with
  \<open>$\<close> and a space, joined again and trimmed.\<close>

definition rawOutput :: "string \<Rightarrow> string" where
  "rawOutput out = trim (join [CHR 0x0A] (filter (\<lambda>line. \<not> startsWith line ''$ '') (split_nl out)))"

subsection \<open>The traversal\<close>

text \<open>What the loop reads and does not change, and the variables it assigns.
  \<open>outputsSoFar\<close> is \<open>context.outputs\<close>; \<open>world\<close> is the state of the outside world, which
  only the shell changes.\<close>

record 'w run_env =
  spawn :: "'w spawn"
  processCwd :: string
  nodeMap :: "(string \<times> workflow_node) list"
  adjacency :: "(string \<times> string list) list"
  labels :: "(string \<times> string) list"
  root :: string

record 'w traversal =
  queue :: "string list"
  visited :: "string set"
  resultsSoFar :: "node_result list"
  orderSoFar :: "string list"
  outputsSoFar :: "(string \<times> string) list"
  overallSuccess :: bool
  world :: 'w

text \<open>The body of the loop for a node that is found in the map, up to the test of the
  status: the id is pushed on the order, the templates are processed, the node is
  executed, the result is pushed, a non-empty output is stored, and a failed status
  clears \<open>overallSuccess\<close>.\<close>

definition visit :: "'w run_env \<Rightarrow> string \<Rightarrow> workflow_node \<Rightarrow> 'w traversal \<Rightarrow> 'w traversal" where
  "visit env currentId node st =
     (let processedNode = processNodeTemplates node \<lparr>outputs = outputsSoFar st, nodeLabels = labels env\<rparr>;
          (result, w') = executeNode (spawn env) (processCwd env) processedNode (root env) (world st);
          st1 = st\<lparr>orderSoFar := orderSoFar st @ [currentId],
                   resultsSoFar := resultsSoFar st @ [result],
                   world := w'\<rparr>;
          st2 = (case nodeOutput result of
                   Some out \<Rightarrow>
                     if out \<noteq> [] then st1\<lparr>outputsSoFar := AList.update currentId (rawOutput out) (outputsSoFar st1)\<rparr>
                     else st1
                 | None \<Rightarrow> st1)
      in if status result = Failed then st2\<lparr>overallSuccess := False\<rparr> else st2)"

definition successors :: "'w run_env \<Rightarrow> string \<Rightarrow> string list" where
  "successors env currentId = (case map_of (adjacency env) currentId of Some ts \<Rightarrow> ts | None \<Rightarrow> [])"

text \<open>The ids an edge can put on the queue.\<close>

definition targets :: "'w run_env \<Rightarrow> string set" where
  "targets env = (\<Union>ts \<in> snd ` set (adjacency env). set ts)"

lemma visit_frame [simp]:
  "queue (visit env k node st) = queue st" "visited (visit env k node st) = visited st"
  by (simp_all add: visit_def Let_def split: prod.splits option.splits)

lemma finite_targets: "finite (targets env)"
  by (simp add: targets_def)

lemma successors_targets: "set (successors env k) \<subseteq> targets env"
proof (cases "map_of (adjacency env) k")
  case None
  then show ?thesis by (simp add: successors_def)
next
  case (Some ts)
  then have "(k, ts) \<in> set (adjacency env)" by (rule map_of_SomeD)
  then have "ts \<in> snd ` set (adjacency env)" by force
  then have "set ts \<subseteq> targets env" unfolding targets_def by blast
  then show ?thesis using Some by (simp add: successors_def)
qed

lemma measure_lt:
  assumes "set q' \<subseteq> set q \<union> T" "V \<subseteq> V'" "finite T" "x \<in> set q" "x \<notin> V" "x \<in> V'"
  shows "card ((set q' \<union> T) - V') < card ((set q \<union> T) - V)"
proof (rule psubset_card_mono)
  show "finite ((set q \<union> T) - V)" using assms(3) by simp
  show "(set q' \<union> T) - V' \<subset> (set q \<union> T) - V" using assms(1,2,4,5,6) by blast
qed

text \<open>
  The \<open>while\<close> loop. It ends for every graph, cyclic ones included: a step either
  marks an id as visited that was not, and there are only the ids of the queue and
  the targets of the edges to mark, or it drops the head of the queue and marks
  nothing.
\<close>

function traverse :: "'w run_env \<Rightarrow> 'w traversal \<Rightarrow> 'w traversal" where
  "traverse env st =
     (case queue st of
        [] \<Rightarrow> st
      | currentId # rest \<Rightarrow>
          if \<not> overallSuccess st then st
          else if currentId \<in> visited st then traverse env (st\<lparr>queue := rest\<rparr>)
          else (case map_of (nodeMap env) currentId of
                  None \<Rightarrow> traverse env (st\<lparr>queue := rest, visited := insert currentId (visited st)\<rparr>)
                | Some node \<Rightarrow>
                    (let st1 = visit env currentId node (st\<lparr>queue := rest, visited := insert currentId (visited st)\<rparr>)
                     in if \<not> overallSuccess st1 then st1
                        else traverse env
                               (st1\<lparr>queue := queue st1 @ filter (\<lambda>nextId. nextId \<notin> visited st1)
                                                             (successors env currentId)\<rparr>))))"
  by pat_completeness auto
termination
proof (relation "measures [\<lambda>(env, st). card ((set (queue st) \<union> targets env) - visited st),
                           \<lambda>(env, st). length (queue st)]", goal_cases)
  case 1
  then show ?case by simp
next
  case (2 env st currentId rest)
  have q: "queue st = currentId # rest" by (rule 2(1))
  have "(set (queue st) \<union> targets env) - visited st = (set rest \<union> targets env) - visited st"
    using 2(3) by (auto simp: q)
  then show ?case by (simp add: q)
next
  case (3 env st currentId rest)
  have q: "queue st = currentId # rest" by (rule 3(1))
  have "card ((set rest \<union> targets env) - insert currentId (visited st))
               < card ((set (queue st) \<union> targets env) - visited st)"
    by (rule measure_lt[where x = currentId]) (use 3(3) in \<open>auto simp: q finite_targets\<close>)
  then show ?case by simp
next
  case (4 env st currentId rest node st1)
  have q: "queue st = currentId # rest" by (rule 4(1))
  have v: "visited st1 = insert currentId (visited st)" and q1: "queue st1 = rest"
    by (simp_all add: 4(5))
  have "card ((set (rest @ filter (\<lambda>nextId. nextId \<notin> insert currentId (visited st)) (successors env currentId)) \<union> targets env)
            - insert currentId (visited st))
               < card ((set (queue st) \<union> targets env) - visited st)"
    by (rule measure_lt[where x = currentId])
       (use 4(3) successors_targets[of env currentId] in \<open>auto simp: q finite_targets\<close>)
  then show ?case by (simp add: v q1)
qed

subsection \<open>The request handler\<close>

text \<open>\<open>new Map(nodes.map(n => [n.id, n]))\<close> and the map of the labels,
  \<open>n.data.label || n.id\<close>.\<close>

definition nodeMapOf :: "workflow_node list \<Rightarrow> (string \<times> workflow_node) list" where
  "nodeMapOf ns = foldl (\<lambda>m n. AList.update (node_id n) n m) [] ns"

definition labelsOf :: "workflow_node list \<Rightarrow> (string \<times> string) list" where
  "labelsOf ns = foldl (\<lambda>m n. AList.update (node_id n) (orElse (dlabel (data n)) (node_id n)) m) [] ns"

definition startNodesOf :: "execute_request \<Rightarrow> workflow_node list \<Rightarrow> workflow_edge list \<Rightarrow> string + string list" where
  "startNodesOf req ns es =
     (case startNodeId req of
        Some sid \<Rightarrow>
          if sid \<noteq> [] then
            (if map_of (nodeMapOf ns) sid = None
             then Inl (''Start node '' @ [CHR 0x27] @ sid @ [CHR 0x27] @ '' not found'')
             else Inr [sid])
          else (let startNodes = findTriggerNodes ns es
                in if length startNodes = 0 then Inl ''No trigger or start node found'' else Inr startNodes)
      | None \<Rightarrow>
          (let startNodes = findTriggerNodes ns es
           in if length startNodes = 0 then Inl ''No trigger or start node found'' else Inr startNodes))"

definition envOf :: "'w spawn \<Rightarrow> string \<Rightarrow> execute_request \<Rightarrow> workflow_node list \<Rightarrow> workflow_edge list \<Rightarrow> 'w run_env" where
  "envOf sp pcwd req ns es =
     \<lparr>spawn = sp, processCwd = pcwd, nodeMap = nodeMapOf ns, adjacency = buildAdjacencyMap es,
      labels = labelsOf ns, root = orElse (rootDirectory req) pcwd\<rparr>"

definition initial :: "string list \<Rightarrow> 'w \<Rightarrow> 'w traversal" where
  "initial startNodes w =
     \<lparr>queue = startNodes, visited = {}, resultsSoFar = [], orderSoFar = [], outputsSoFar = [],
      overallSuccess = True, world = w\<rparr>"

text \<open>The handler up to the end of the loop, and the response it sends.\<close>

definition run :: "'w spawn \<Rightarrow> string \<Rightarrow> execute_request \<Rightarrow> 'w \<Rightarrow> string + 'w traversal" where
  "run sp pcwd req w =
     (case nodes req of
        None \<Rightarrow> Inl ''nodes array is required''
      | Some ns \<Rightarrow>
          (case edges req of
             None \<Rightarrow> Inl ''edges array is required''
           | Some es \<Rightarrow>
               (case startNodesOf req ns es of
                  Inl err \<Rightarrow> Inl err
                | Inr startNodes \<Rightarrow> Inr (traverse (envOf sp pcwd req ns es) (initial startNodes w)))))"

definition execute :: "'w spawn \<Rightarrow> string \<Rightarrow> execute_request \<Rightarrow> 'w \<Rightarrow> string + execute_response" where
  "execute sp pcwd req w =
     (case run sp pcwd req w of
        Inl err \<Rightarrow> Inl err
      | Inr st \<Rightarrow> Inr \<lparr>success = overallSuccess st, results = resultsSoFar st,
                        executionOrder = orderSoFar st\<rparr>)"

subsection \<open>Invariants of the traversal\<close>

text \<open>Every entry of the node map is stored under the id of its node.\<close>

definition keyed :: "'w run_env \<Rightarrow> bool" where
  "keyed env \<longleftrightarrow> (\<forall>(k, n) \<in> set (nodeMap env). node_id n = k)"

definition runInv :: "'w run_env \<Rightarrow> 'w traversal \<Rightarrow> bool" where
  "runInv env st \<longleftrightarrow>
     map resultNodeId (resultsSoFar st) = orderSoFar st
     \<and> distinct (orderSoFar st)
     \<and> set (orderSoFar st) \<subseteq> visited st
     \<and> set (orderSoFar st) \<subseteq> fst ` set (nodeMap env)
     \<and> (\<forall>r \<in> set (butlast (resultsSoFar st)). status r = Completed)
     \<and> (if overallSuccess st then (\<forall>r \<in> set (resultsSoFar st). status r = Completed)
         else resultsSoFar st \<noteq> [] \<and> status (last (resultsSoFar st)) = Failed)"

text \<open>\<open>context.outputs\<close> as a function of the results: the stored outputs of the results
  in their order.\<close>

definition outputsOf :: "node_result list \<Rightarrow> (string \<times> string) list" where
  "outputsOf rs =
     foldl (\<lambda>m r. case nodeOutput r of
                     Some out \<Rightarrow> if out \<noteq> [] then AList.update (resultNodeId r) (rawOutput out) m else m
                   | None \<Rightarrow> m) [] rs"

text \<open>Executing the nodes with the given ids one after the other, and nothing else:
  each node is looked up, its templates are processed in the context of the outputs
  of the results so far, and it is executed in the world its predecessor left. The
  result is the list of all results and the last world, or \<open>None\<close> when an id has no
  node.\<close>

fun executeInOrder ::
  "'w run_env \<Rightarrow> string list \<Rightarrow> node_result list \<Rightarrow> 'w \<Rightarrow> (node_result list \<times> 'w) option" where
  "executeInOrder env [] rs w = Some (rs, w)"
| "executeInOrder env (k # ks) rs w =
     (case map_of (nodeMap env) k of
        None \<Rightarrow> None
      | Some node \<Rightarrow>
          (let (r, w') = executeNode (spawn env) (processCwd env)
                           (processNodeTemplates node \<lparr>outputs = outputsOf rs, nodeLabels = labels env\<rparr>)
                           (root env) w
           in executeInOrder env ks (rs @ [r]) w'))"

definition replayInv :: "'w run_env \<Rightarrow> 'w \<Rightarrow> 'w traversal \<Rightarrow> bool" where
  "replayInv env w0 st \<longleftrightarrow>
     outputsSoFar st = outputsOf (resultsSoFar st)
     \<and> executeInOrder env (orderSoFar st) [] w0 = Some (resultsSoFar st, world st)"

section \<open>Example inputs\<close>

text \<open>A stand-in for the cron package that knows one expression, "every second": the
  next whole second strictly after the base time.\<close>

definition everySecond :: "string \<Rightarrow> int \<Rightarrow> string + int" where
  "everySecond expr base =
     (if expr = ''* * * * * *'' then Inr ((base div 1000 + 1) * 1000) else Inl ''unsupported'')"

text \<open>A manager as the tests construct it: no triggers, persistence off.\<close>

definition newManager :: "(nat \<Rightarrow> int) \<Rightarrow> manager" where
  "newManager c = \<lparr>triggers = [], clock = c, ticks = 0,
     triggersFile = None, idleSince = None, cronNext = everySecond\<rparr>"

definition minuteClock :: "nat \<Rightarrow> int" where
  "minuteClock n = 60000 * int n"

definition cronCfg :: trigger_config where
  "cronCfg = \<lparr>ctype = Cron, cron = Some ''* * * * * *'', idleMinutes = None\<rparr>"

definition idleCfg :: "rat \<Rightarrow> trigger_config" where
  "idleCfg m = \<lparr>ctype = Idle, cron = None, idleMinutes = Some m\<rparr>"

definition idleTrigger :: "string \<Rightarrow> string \<Rightarrow> string \<Rightarrow> string \<Rightarrow> rat \<Rightarrow> registered_trigger" where
  "idleTrigger ws wp nid lbl m =
     \<lparr>tid = getTriggerKey ws wp nid, workspace = ws, workflowPath = wp, nodeId = nid, label = lbl,
      config = idleCfg m, enabled = True, nextRun = None, lastRun = None\<rparr>"

text \<open>One cron trigger, registered at reading 0 of a clock that advances a minute per
  reading, that has fired since: its \<open>lastRun\<close> is the reading 2.\<close>

definition firedOnce :: manager where
  "firedOnce =
     (let s = snd (register (newManager minuteClock) ''ws1'' ''wf1.yaml'' ''t1'' ''First'' cronCfg)
      in s\<lparr>triggers := AList.map_entry ''ws1:wf1.yaml:t1''
                           (\<lambda>t. t\<lparr>nextRun := Some 181000, lastRun := Some 120000\<rparr>) (triggers s),
           ticks := 4\<rparr>)"

text \<open>The three idle triggers of the test suite (thresholds 2, 5 and 10 minutes) on a
  clock that advances three minutes per reading; the system went idle at reading 0.\<close>

definition idleThree :: manager where
  "idleThree =
     (let s0 = newManager (\<lambda>n. 180000 * int n);
          s1 = snd (register s0 ''ws1'' ''wf1.yaml'' ''t1'' ''Quick Task'' (idleCfg 2));
          s2 = snd (register s1 ''ws1'' ''wf2.yaml'' ''t2'' ''Normal Task'' (idleCfg 5));
          s3 = snd (register s2 ''ws1'' ''wf3.yaml'' ''t3'' ''Slow Task'' (idleCfg 10))
      in setIdle True s3)"


definition cronTrigger :: "string \<Rightarrow> string \<Rightarrow> int option \<Rightarrow> int option \<Rightarrow> registered_trigger" where
  "cronTrigger nid lbl nxt lst =
     \<lparr>tid = getTriggerKey ''ws'' ''wf'' nid, workspace = ''ws'', workflowPath = ''wf'', nodeId = nid,
      label = lbl, config = cronCfg, enabled = True, nextRun = nxt, lastRun = lst\<rparr>"

text \<open>Three cron triggers and three idle triggers (thresholds 0, 1 and 2 minutes) at
  the addresses 0 to 5, at reading 4 of a clock that advances a minute per reading;
  the system is idle since reading 3. What is outside the manager is the journal of
  the callback.\<close>

definition sixLive :: "(nat \<times> callback_outcome) list live_manager" where
  "sixLive =
     \<lparr>heap = (\<lambda>a. [cronTrigger ''c1'' ''Cron 1'' (Some 1000) None,
                    cronTrigger ''c2'' ''Cron 2'' (Some 61000) None,
                    cronTrigger ''c3'' ''Cron 3'' (Some 121000) None,
                    idleTrigger ''ws'' ''wf'' ''i1'' ''Idle 1'' 0,
                    idleTrigger ''ws'' ''wf'' ''i2'' ''Idle 2'' 1,
                    idleTrigger ''ws'' ''wf'' ''i3'' ''Idle 3'' 2] ! a),
      entries = [(''ws:wf:c1'', 0), (''ws:wf:c2'', 1), (''ws:wf:c3'', 2),
                 (''ws:wf:i1'', 3), (''ws:wf:i2'', 4), (''ws:wf:i3'', 5)],
      liveClock = minuteClock, liveTicks = 4, liveFile = None, liveIdleSince = Some 180000,
      liveCronNext = everySecond, outside = []\<rparr>"

text \<open>A callback that throws for the trigger at address 1 and resolves for the others.
  It writes the address and the outcome into its journal, marks the label of the
  object it is given with a star and, when that is an idle trigger, tells the manager
  that the system is busy (\<open>setIdle(false)\<close>), as the executor of a workflow does.\<close>

definition recording :: "(nat \<times> callback_outcome) list callback" where
  "recording a s =
     (let out = (if a = 1 then Rejected ''boom'' else Resolved)
      in (out, s\<lparr>heap := (heap s)(a := (heap s a)\<lparr>label := label (heap s a) @ ''*''\<rparr>),
                liveIdleSince := (if ctype (config (heap s a)) = Idle then None else liveIdleSince s),
                outside := outside s @ [(a, out)]\<rparr>))"

text \<open>A callback that tells the manager at once that the system is busy.\<close>

definition busyAtOnce :: "(nat \<times> callback_outcome) list callback" where
  "busyAtOnce a s = (Resolved, s\<lparr>liveIdleSince := None, outside := outside s @ [(a, Resolved)]\<rparr>)"


subsection \<open>Workflows\<close>

text \<open>A shell that knows \<open>exit 3\<close> and \<open>echo\<close>; the world is the log of the commands it
  was given.\<close>

definition logShell :: "string list spawn" where
  "logShell command cwd w =
     (if command = ''exit 3'' then (Closed [] [] (Some 3), w @ [command])
      else if take 5 command = ''echo '' then (Closed (drop 5 command @ [CHR 0x0A]) [] (Some 0), w @ [command])
      else (Closed [] ''unknown command'' (Some 127), w @ [command]))"

definition mkNode :: "string \<Rightarrow> string \<Rightarrow> string option \<Rightarrow> string list option \<Rightarrow> workflow_node" where
  "mkNode i t l cs = \<lparr>node_id = i, ntype = t,
     data = \<lparr>dlabel = l, nodeType = None, commands = cs, prompt = None, path = None\<rparr>\<rparr>"

definition mkEdge :: "string \<Rightarrow> string \<Rightarrow> workflow_edge" where
  "mkEdge a b = \<lparr>eid = a @ ''-'' @ b, source = a, target = b\<rparr>"

text \<open>The graph \<open>trigger -> shellA -> shellB\<close> whose \<open>shellA\<close> exits with code 3, and the
  response it gets.\<close>

definition failingRequest :: execute_request where
  "failingRequest =
     \<lparr>nodes = Some [mkNode ''trigger'' ''trigger'' None None,
                     mkNode ''shellA'' ''shell'' None (Some [''exit 3'']),
                     mkNode ''shellB'' ''shell'' None (Some [''echo b''])],
      edges = Some [mkEdge ''trigger'' ''shellA'', mkEdge ''shellA'' ''shellB''],
      rootDirectory = None, startNodeId = None\<rparr>"

definition failingResponse :: execute_response where
  "failingResponse =
     \<lparr>success = False,
      results = [\<lparr>resultNodeId = ''trigger'', status = Completed,
                  nodeOutput = Some ''Trigger activated'', nodeError = None, exitCode = None\<rparr>,
                 \<lparr>resultNodeId = ''shellA'', status = Failed,
                  nodeOutput = Some (''$ exit 3'' @ [CHR 0x0A]),
                  nodeError = Some (CommandFailed 3), exitCode = Some 3\<rparr>],
      executionOrder = [''trigger'', ''shellA'']\<rparr>"

text \<open>A graph with a node reached twice (\<open>c\<close>), a cycle (\<open>c -> a\<close>) and an edge to an id
  that no node has (\<open>ghost\<close>).\<close>

definition diamondRequest :: execute_request where
  "diamondRequest =
     \<lparr>nodes = Some [mkNode ''t'' ''trigger'' None None,
                     mkNode ''a'' ''shell'' None (Some [''echo a'']),
                     mkNode ''b'' ''workdir'' None None,
                     mkNode ''c'' ''agent'' None None],
      edges = Some [mkEdge ''t'' ''a'', mkEdge ''t'' ''b'', mkEdge ''t'' ''ghost'',
                     mkEdge ''a'' ''c'', mkEdge ''b'' ''c'', mkEdge ''c'' ''a''],
      rootDirectory = Some ''/work'', startNodeId = None\<rparr>"

definition diamondOutcome :: "(string + execute_response) \<Rightarrow> (bool \<times> node_status list \<times> string list) option" where
  "diamondOutcome x = (case x of Inr r \<Rightarrow> Some (success r, map status (results r), executionOrder r) | Inl e \<Rightarrow> None)"



text \<open>The log of the shell after the handler has run.\<close>

definition shellLog :: "(string + string list traversal) \<Rightarrow> string list option" where
  "shellLog x = (case x of Inr st \<Rightarrow> Some (world st) | Inl e \<Rightarrow> None)"

section \<open>Properties of the trigger manager\<close>

subsection \<open>Rounding to a double\<close>

lemma bitLength_bounds:
  "0 < n \<Longrightarrow> 2 ^ (bitLength n - 1) \<le> n \<and> n < 2 ^ bitLength n"
proof (induction n rule: bitLength.induct)
  case (1 n)
  show ?case
  proof (cases "n div 2 \<le> 0")
    case True
    then have "n = 1" using 1(2) by linarith
    then show ?thesis by (simp add: bitLength.simps[of 1] bitLength.simps[of 0])
  next
    case False
    then have p: "0 < n div 2" by simp
    have ih: "2 ^ (bitLength (n div 2) - 1) \<le> n div 2 \<and> n div 2 < 2 ^ bitLength (n div 2)"
      using 1(1) 1(2) p by simp
    have b: "bitLength n = Suc (bitLength (n div 2))"
      using 1(2) by (simp add: bitLength.simps[of n])
    have pos: "0 < bitLength (n div 2)"
      using p by (simp add: bitLength.simps[of "n div 2"])
    then obtain k where k: "bitLength (n div 2) = Suc k" by (cases "bitLength (n div 2)") auto
    have lo: "(2::int) ^ Suc k \<le> n"
    proof -
      have "(2::int) ^ k \<le> n div 2" using ih k by simp
      then have "2 * (2::int) ^ k \<le> 2 * (n div 2)" by simp
      also have "\<dots> \<le> n" by simp
      finally show ?thesis by simp
    qed
    have hi: "n < 2 ^ Suc (Suc k)"
    proof -
      have "n div 2 + 1 \<le> 2 ^ Suc k" using ih k by simp
      then have "2 * (n div 2) + 2 \<le> 2 * 2 ^ Suc k" by simp
      moreover have "n < 2 * (n div 2) + 2" by linarith
      ultimately show ?thesis by simp
    qed
    show ?thesis using lo hi by (simp add: b k)
  qed
qed

lemma pow2_powi: "pow2 e = 2 powi e"
  by (simp add: pow2_def power_int_def power_inverse [symmetric] inverse_eq_divide power_one_over)

lemma pow2_pos: "0 < pow2 e"
  by (simp add: pow2_powi)

lemma pow2_add: "pow2 (a + b) = pow2 a * pow2 b"
  by (simp add: pow2_powi power_int_add)

lemma pow2_nat: "pow2 (int n) = 2 ^ n"
  by (simp add: pow2_def)

lemma pow2_neg: "pow2 (- int n) = 1 / 2 ^ n"
  by (simp add: pow2_powi power_int_minus inverse_eq_divide)

lemma pow2_diff_nat: "pow2 (int i - int j) = 2 ^ i / 2 ^ j"
proof -
  have "pow2 (int i + (- int j)) = pow2 (int i) * pow2 (- int j)" by (rule pow2_add)
  then show ?thesis by (simp add: pow2_nat pow2_neg)
qed

lemma exponentOf_le:
  assumes "0 < a"
  shows "pow2 (exponentOf a) \<le> a"
proof -
  obtain p q where pq: "quotient_of a = (p, q)" by (cases "quotient_of a") auto
  have q: "0 < q" using quotient_of_denom_pos[OF pq] .
  have a: "a = of_int p / of_int q" using quotient_of_div[OF pq] .
  have p: "0 < p" using assms q unfolding a by (simp add: zero_less_divide_iff)
  define bp where "bp = bitLength p"
  define bq where "bq = bitLength q"
  have bp: "2 ^ (bp - 1) \<le> p" and bq: "q < 2 ^ bq"
    using bitLength_bounds[OF p] bitLength_bounds[OF q] by (simp_all add: bp_def bq_def)
  have bp0: "0 < bp" using p by (simp add: bp_def bitLength.simps[of p])
  show ?thesis
  proof (cases "pow2 (int bp - int bq) \<le> a")
    case True
    then show ?thesis by (simp add: exponentOf_def pq bp_def bq_def)
  next
    case False
    have e: "exponentOf a = int bp - int bq - 1"
      using False by (simp add: exponentOf_def pq bp_def bq_def)
    have "int bp - int bq - 1 = int (bp - 1) - int bq" using bp0 by simp
    then have "pow2 (exponentOf a) = 2 ^ (bp - 1) / 2 ^ bq"
      unfolding e by (simp only: pow2_diff_nat)
    also have "\<dots> \<le> of_int p / of_int q"
    proof -
      have 1: "(2::rat) ^ (bp - 1) \<le> of_int p"
      proof -
        have "(of_int (2 ^ (bp - 1)) :: rat) \<le> of_int p" using bp by (simp only: of_int_le_iff)
        then show ?thesis by simp
      qed
      have 2: "(of_int q :: rat) \<le> 2 ^ bq"
      proof -
        have "q \<le> 2 ^ bq" using bq by simp
        then have "(of_int q :: rat) \<le> of_int (2 ^ bq)" by (simp only: of_int_le_iff)
        then show ?thesis by simp
      qed
      have 3: "(0::rat) < of_int q" using q by simp
      have "(2::rat) ^ (bp - 1) / 2 ^ bq \<le> of_int p / 2 ^ bq"
        using 1 by (simp add: divide_right_mono)
      also have "\<dots> \<le> of_int p / of_int q"
        using 2 3 p by (simp add: frac_le)
      finally show ?thesis .
    qed
    finally show ?thesis by (simp add: a)
  qed
qed

lemma roundHalfEven_bounds:
  "of_int (roundHalfEven q) \<le> q + 1 / 2 \<and> q - 1 / 2 \<le> of_int (roundHalfEven q)"
proof -
  define f where "f = \<lfloor>q\<rfloor>"
  define r where "r = q - of_int f"
  have b: "0 \<le> r" "r < 1" unfolding r_def f_def by linarith+
  have q: "q = of_int f + r" by (simp add: r_def)
  consider "r < 1 / 2" | "1 / 2 < r" | "r = 1 / 2" by linarith
  then show ?thesis
  proof cases
    case 1
    then have "roundHalfEven q = f" by (simp add: roundHalfEven_def Let_def f_def r_def)
    then show ?thesis using b 1 unfolding q by simp
  next
    case 2
    then have "roundHalfEven q = f + 1" by (simp add: roundHalfEven_def Let_def f_def r_def)
    then show ?thesis using b 2 unfolding q by simp
  next
    case 3
    then have rq: "roundHalfEven q = f \<or> roundHalfEven q = f + 1"
      by (simp add: roundHalfEven_def Let_def f_def r_def)
    have "of_int f = q - 1 / 2" using 3 by (simp add: r_def)
    then show ?thesis using rq by auto
  qed
qed

lemma roundHalfEven_nonneg: "0 \<le> q \<Longrightarrow> 0 \<le> roundHalfEven q"
proof -
  assume "0 \<le> q"
  then have "0 \<le> \<lfloor>q\<rfloor>" by simp
  then show ?thesis unfolding roundHalfEven_def Let_def by auto
qed

lemma toDouble_nonneg: "0 \<le> x \<Longrightarrow> 0 \<le> toDouble x"
proof (cases "x = 0")
  case True
  then show ?thesis by (simp add: toDouble_def)
next
  case False
  assume "0 \<le> x"
  then have x: "0 < x" using False by simp
  define ulp where "ulp = pow2 (max (exponentOf \<bar>x\<bar>) (- 1022) - 52)"
  have u: "0 < ulp" by (simp add: ulp_def pow2_pos)
  have "0 \<le> \<bar>x\<bar> / ulp" using u by simp
  then have "0 \<le> roundHalfEven (\<bar>x\<bar> / ulp)" by (rule roundHalfEven_nonneg)
  then have "0 \<le> (of_int (roundHalfEven (\<bar>x\<bar> / ulp)) :: rat) * ulp" using u by simp
  then show ?thesis using x False by (simp add: toDouble_def Let_def ulp_def)
qed

lemma toDouble_upper:
  assumes "0 < x"
  shows "toDouble x \<le> x + max (x / 2 ^ 53) (1 / 2 ^ 1075)"
proof -
  define e where "e = max (exponentOf x) (- 1022)"
  define ulp where "ulp = pow2 (e - 52)"
  have u: "0 < ulp" by (simp add: ulp_def pow2_pos)
  have t: "toDouble x = of_int (roundHalfEven (x / ulp)) * ulp"
    using assms by (simp add: toDouble_def Let_def ulp_def e_def)
  have "of_int (roundHalfEven (x / ulp)) \<le> x / ulp + 1 / 2"
    using roundHalfEven_bounds by blast
  then have "of_int (roundHalfEven (x / ulp)) * ulp \<le> (x / ulp + 1 / 2) * ulp"
    using u by (simp only: mult_le_cancel_right_pos)
  also have "\<dots> = x + ulp / 2" using u by (simp add: field_simps)
  finally have b: "toDouble x \<le> x + ulp / 2" by (simp add: t)
  have h: "ulp / 2 = pow2 (e - 53)"
  proof -
    have "pow2 (e - 53 + 1) = pow2 (e - 53) * pow2 1" by (rule pow2_add)
    then show ?thesis by (simp add: ulp_def pow2_def[of 1])
  qed
  have "pow2 (e - 53) \<le> max (x / 2 ^ 53) (1 / 2 ^ 1075)"
  proof (cases "exponentOf x \<le> - 1022")
    case True
    then have "e = - 1022" by (simp add: e_def)
    then have "pow2 (e - 53) = 1 / 2 ^ 1075" by (simp add: pow2_def)
    then show ?thesis by simp
  next
    case False
    then have "e = exponentOf x" by (simp add: e_def)
    then have "pow2 (e - 53) = pow2 (exponentOf x + (- 53))" by simp
    also have "\<dots> = pow2 (exponentOf x) * pow2 (- 53)" by (rule pow2_add)
    also have "\<dots> = pow2 (exponentOf x) / 2 ^ 53" by (simp add: pow2_def)
    also have "\<dots> \<le> x / 2 ^ 53"
      using exponentOf_le[OF assms] by (simp add: divide_right_mono)
    finally show ?thesis by simp
  qed
  then show ?thesis using b h by simp
qed

lemma toDouble_below:
  assumes "0 \<le> rnd" "rnd \<le> 1 - 1 / 2 ^ 53" "0 < n"
  shows "0 \<le> \<lfloor>toDouble (rnd * of_nat n)\<rfloor> \<and> \<lfloor>toDouble (rnd * of_nat n)\<rfloor> < int n"
proof -
  define x where "x = rnd * of_nat n"
  have n1: "(1::rat) \<le> of_nat n" using assms(3) by simp
  have x0: "0 \<le> x" using assms(1) by (simp add: x_def)
  have xn: "x \<le> (1 - 1 / 2 ^ 53) * of_nat n"
    unfolding x_def using assms(2) by (simp only: mult_right_mono of_nat_0_le_iff)
  have lo: "0 \<le> toDouble x" using x0 by (rule toDouble_nonneg)
  have hi: "toDouble x < of_nat n"
  proof (cases "x = 0")
    case True
    then show ?thesis using n1 by (simp add: toDouble_def)
  next
    case False
    then have xp: "0 < x" using x0 by simp
    have u: "toDouble x \<le> x + max (x / 2 ^ 53) (1 / 2 ^ 1075)" using xp by (rule toDouble_upper)
    have a: "x + x / 2 ^ 53 < of_nat n"
    proof -
      have "x + x / 2 ^ 53 = x * (1 + 1 / 2 ^ 53)" by (simp add: field_simps)
      also have "\<dots> \<le> ((1 - 1 / 2 ^ 53) * of_nat n) * (1 + 1 / 2 ^ 53)"
        by (rule mult_right_mono) (use xn in simp_all)
      also have "\<dots> = of_nat n * ((1 - 1 / 2 ^ 53) * (1 + 1 / 2 ^ 53))" by simp
      also have "\<dots> < of_nat n * 1"
      proof -
        have "((1 - 1 / 2 ^ 53) * (1 + 1 / 2 ^ 53) :: rat) < 1" by simp
        moreover have "(0::rat) < of_nat n" using n1 by simp
        ultimately show ?thesis by (rule mult_strict_left_mono)
      qed
      finally show ?thesis by simp
    qed
    have b: "x + 1 / 2 ^ 1075 < of_nat n"
    proof -
      have "(1 / 2 ^ 1075 :: rat) < 1 / 2 ^ 53" by simp
      also have "\<dots> \<le> of_nat n * (1 / 2 ^ 53)" using n1 by simp
      finally have "x + 1 / 2 ^ 1075 < (1 - 1 / 2 ^ 53) * of_nat n + of_nat n * (1 / 2 ^ 53)"
        using xn by linarith
      also have "\<dots> = of_nat n" by (simp add: field_simps)
      finally show ?thesis .
    qed
    show ?thesis using u a b by (simp add: max_def split: if_splits)
  qed
  have "0 \<le> \<lfloor>toDouble x\<rfloor>" using lo by simp
  moreover have "\<lfloor>toDouble x\<rfloor> < int n"
  proof -
    have "toDouble x < of_int (int n)" using hi by simp
    then show ?thesis by (simp only: floor_less_iff)
  qed
  ultimately show ?thesis by (simp add: x_def)
qed







subsection \<open>Registration\<close>

lemma register_get:
  "get (snd (register s ws wp nid lbl cfg)) ws wp nid = Some (fst (register s ws wp nid lbl cfg))"
  by (simp add: register_def get_def Let_def split: prod.splits add: update_conv')

lemma register_fields:
  "label (fst (register s ws wp nid lbl cfg)) = lbl"
  "config (fst (register s ws wp nid lbl cfg)) = cfg"
  "enabled (fst (register s ws wp nid lbl cfg)) = True"
  "lastRun (fst (register s ws wp nid lbl cfg)) = Option.bind (get s ws wp nid) lastRun"
  by (auto simp: register_def get_def Let_def getNextRunTime_def now_def
        split: prod.splits option.splits sum.splits)

lemma register_triggers:
  "triggers (snd (register s ws wp nid lbl cfg)) =
     AList.update (getTriggerKey ws wp nid) (fst (register s ws wp nid lbl cfg)) (triggers s)"
  by (auto simp: register_def Let_def getNextRunTime_def now_def
        split: prod.splits option.splits sum.splits)

lemma setEnabled_get:
  "get s ws wp nid = Some t \<Longrightarrow>
     get (snd (setEnabled s ws wp nid b)) ws wp nid = Some (t\<lparr>enabled := b\<rparr>)"
  by (simp add: setEnabled_def get_def map_of_map_entry)

lemma firedOnce_eval:
  "firedOnce =
     \<lparr>triggers = [(''ws1:wf1.yaml:t1'',
         \<lparr>tid = ''ws1:wf1.yaml:t1'', workspace = ''ws1'', workflowPath = ''wf1.yaml'', nodeId = ''t1'',
          label = ''First'', config = cronCfg, enabled = True, nextRun = Some 181000,
          lastRun = Some 120000\<rparr>)],
      clock = minuteClock, ticks = 4, triggersFile = None,
      idleSince = None, cronNext = everySecond\<rparr>"
  by (simp add: firedOnce_def register_def getTriggerKey_def cronOf_def getNextRunTime_def now_def
        newManager_def everySecond_def minuteClock_def cronCfg_def Let_def)

lemma idleThree_eval:
  "idleThree =
     \<lparr>triggers = [(''ws1:wf1.yaml:t1'', idleTrigger ''ws1'' ''wf1.yaml'' ''t1'' ''Quick Task'' 2),
                  (''ws1:wf2.yaml:t2'', idleTrigger ''ws1'' ''wf2.yaml'' ''t2'' ''Normal Task'' 5),
                  (''ws1:wf3.yaml:t3'', idleTrigger ''ws1'' ''wf3.yaml'' ''t3'' ''Slow Task'' 10)],
      clock = (\<lambda>n. 180000 * int n), ticks = 1, triggersFile = None,
      idleSince = Some 0, cronNext = everySecond\<rparr>"
  by (simp add: idleThree_def idleTrigger_def register_def getTriggerKey_def cronOf_def idleCfg_def
        newManager_def setIdle_def now_def Let_def)

text \<open>
  Claim C5. Registering a key that is already registered stores the new label and
  configuration under it and keeps the \<open>lastRun\<close> of the trigger that was stored there:
  \<open>get\<close> then returns the trigger \<open>register\<close> returned, whose \<open>lastRun\<close> is the old
  one's. The entry keeps its place in the map and no other key changes.
\<close>

theorem register_preserves_lastRun:
  assumes "get s ws wp nid = Some old"
  shows "get (snd (register s ws wp nid lbl cfg)) ws wp nid = Some (fst (register s ws wp nid lbl cfg))
   \<and> label (fst (register s ws wp nid lbl cfg)) = lbl
   \<and> config (fst (register s ws wp nid lbl cfg)) = cfg
   \<and> lastRun (fst (register s ws wp nid lbl cfg)) = lastRun old
   \<and> map fst (triggers (snd (register s ws wp nid lbl cfg))) = map fst (triggers s)
   \<and> (\<forall>k. k \<noteq> getTriggerKey ws wp nid \<longrightarrow>
          map_of (triggers (snd (register s ws wp nid lbl cfg))) k = map_of (triggers s) k)"
proof -
  have "getTriggerKey ws wp nid \<in> fst ` set (triggers s)"
    using assms by (auto simp: get_def dest: map_of_SomeD intro: rev_image_eqI)
  then have "map fst (triggers (snd (register s ws wp nid lbl cfg))) = map fst (triggers s)"
    by (simp add: register_triggers update_keys)
  then show ?thesis
    using assms by (simp add: register_get register_fields register_triggers update_conv')
qed

theorem register_preserves_lastRun_witness:
  "map_option lastRun (get firedOnce ''ws1'' ''wf1.yaml'' ''t1'') = Some (Some 120000)
   \<and> map_option label (get firedOnce ''ws1'' ''wf1.yaml'' ''t1'') = Some ''First''
   \<and> lastRun (fst (register firedOnce ''ws1'' ''wf1.yaml'' ''t1'' ''Second'' (idleCfg 5))) = Some 120000
   \<and> label (fst (register firedOnce ''ws1'' ''wf1.yaml'' ''t1'' ''Second'' (idleCfg 5))) = ''Second''
   \<and> config (fst (register firedOnce ''ws1'' ''wf1.yaml'' ''t1'' ''Second'' (idleCfg 5))) = idleCfg 5
   \<and> get (snd (register firedOnce ''ws1'' ''wf1.yaml'' ''t1'' ''Second'' (idleCfg 5))) ''ws1'' ''wf1.yaml'' ''t1''
       = Some (fst (register firedOnce ''ws1'' ''wf1.yaml'' ''t1'' ''Second'' (idleCfg 5)))"
proof -
  have g: "get firedOnce ''ws1'' ''wf1.yaml'' ''t1'' =
     Some \<lparr>tid = ''ws1:wf1.yaml:t1'', workspace = ''ws1'', workflowPath = ''wf1.yaml'', nodeId = ''t1'',
          label = ''First'', config = cronCfg, enabled = True, nextRun = Some 181000,
          lastRun = Some 120000\<rparr>"
    by (simp add: firedOnce_eval get_def getTriggerKey_def)
  show ?thesis
    using register_preserves_lastRun [OF g, of "''Second''" "idleCfg 5"] g by simp
qed

text \<open>
  Claim C9. \<open>register\<close> always stores the trigger enabled. When the key holds a trigger,
  \<open>setEnabled(..., false)\<close> disables it and leaves \<open>lastRun\<close> alone; registering the key
  again stores an enabled trigger, with that \<open>lastRun\<close> still in place.
\<close>

theorem register_reenables:
  "enabled (fst (register s ws wp nid lbl cfg)) = True
   \<and> map_option enabled (get (snd (register s ws wp nid lbl cfg)) ws wp nid) = Some True
   \<and> (get s ws wp nid \<noteq> None \<longrightarrow>
        (let s1 = snd (setEnabled s ws wp nid False)
         in fst (setEnabled s ws wp nid False) = True
            \<and> map_option enabled (get s1 ws wp nid) = Some False
            \<and> map_option lastRun (get s1 ws wp nid) = map_option lastRun (get s ws wp nid)
            \<and> map_option enabled (get (snd (register s1 ws wp nid lbl cfg)) ws wp nid) = Some True
            \<and> map_option lastRun (get (snd (register s1 ws wp nid lbl cfg)) ws wp nid)
                = map_option lastRun (get s ws wp nid)))"
proof (intro conjI impI)
  show "enabled (fst (register s ws wp nid lbl cfg)) = True"
    by (simp add: register_fields)
  show "map_option enabled (get (snd (register s ws wp nid lbl cfg)) ws wp nid) = Some True"
    by (simp add: register_get register_fields)
next
  assume "get s ws wp nid \<noteq> None"
  then obtain t where t: "get s ws wp nid = Some t" by auto
  have g: "get (snd (setEnabled s ws wp nid False)) ws wp nid = Some (t\<lparr>enabled := False\<rparr>)"
    using t by (rule setEnabled_get)
  have r: "fst (setEnabled s ws wp nid False) = True"
    using t by (simp add: setEnabled_def)
  show "let s1 = snd (setEnabled s ws wp nid False)
         in fst (setEnabled s ws wp nid False) = True
            \<and> map_option enabled (get s1 ws wp nid) = Some False
            \<and> map_option lastRun (get s1 ws wp nid) = map_option lastRun (get s ws wp nid)
            \<and> map_option enabled (get (snd (register s1 ws wp nid lbl cfg)) ws wp nid) = Some True
            \<and> map_option lastRun (get (snd (register s1 ws wp nid lbl cfg)) ws wp nid)
                = map_option lastRun (get s ws wp nid)"
    unfolding Let_def by (simp add: g r t register_get register_fields)
qed

theorem register_reenables_witness:
  "map_option enabled (get idleThree ''ws1'' ''wf1.yaml'' ''t1'') = Some True
   \<and> map_option enabled
        (get (snd (setEnabled idleThree ''ws1'' ''wf1.yaml'' ''t1'' False)) ''ws1'' ''wf1.yaml'' ''t1'')
       = Some False
   \<and> map_option enabled
        (get (snd (register (snd (setEnabled idleThree ''ws1'' ''wf1.yaml'' ''t1'' False))
                     ''ws1'' ''wf1.yaml'' ''t1'' ''Quick Task'' (idleCfg 2)))
             ''ws1'' ''wf1.yaml'' ''t1'')
       = Some True"
proof -
  have g: "get idleThree ''ws1'' ''wf1.yaml'' ''t1''
             = Some (idleTrigger ''ws1'' ''wf1.yaml'' ''t1'' ''Quick Task'' 2)"
    by (simp add: idleThree_eval get_def getTriggerKey_def)
  have e: "enabled (idleTrigger ''ws1'' ''wf1.yaml'' ''t1'' ''Quick Task'' 2)"
    by (simp add: idleTrigger_def)
  show ?thesis
    using register_reenables [of idleThree "''ws1''" "''wf1.yaml''" "''t1''" "''Quick Task''" "idleCfg 2"]
    by (simp add: g e Let_def)
qed


subsection \<open>Idle state and due idle triggers\<close>









section \<open>Properties of the graph executor\<close>

subsection \<open>The traversal keeps its invariants\<close>

lemma runCommands_status:
  "runCommands sp cwd cmds outs l w = ((s, outs', c), w') \<Longrightarrow> s = Completed \<or> s = Failed"
  by (induction sp cwd cmds outs l w rule: runCommands.induct)
     (auto simp: Let_def split: if_splits prod.splits)

lemma executeNode_result:
  "resultNodeId (fst (executeNode sp pcwd node r w)) = node_id node
   \<and> (status (fst (executeNode sp pcwd node r w)) = Completed
      \<or> status (fst (executeNode sp pcwd node r w)) = Failed)"
  by (auto simp: executeNode_def Let_def split: prod.splits node_status.splits)

lemma processNodeTemplates_nid: "node_id (processNodeTemplates node ctx) = node_id node"
  by (simp add: processNodeTemplates_def)

lemma visit_fields:
  "\<exists>result. resultsSoFar (visit env k node st) = resultsSoFar st @ [result]
     \<and> resultNodeId result = node_id node
     \<and> (status result = Completed \<or> status result = Failed)
     \<and> orderSoFar (visit env k node st) = orderSoFar st @ [k]
     \<and> overallSuccess (visit env k node st) = (overallSuccess st \<and> status result \<noteq> Failed)"
proof -
  define pn where "pn = processNodeTemplates node \<lparr>outputs = outputsSoFar st, nodeLabels = labels env\<rparr>"
  define res where "res = fst (executeNode (spawn env) (processCwd env) pn (root env) (world st))"
  have a: "resultNodeId res = node_id node" "status res = Completed \<or> status res = Failed"
    using executeNode_result[of "spawn env" "processCwd env" pn "root env" "world st"]
    by (simp_all add: res_def pn_def processNodeTemplates_nid)
  show ?thesis
    apply (rule exI[of _ res])
    using a
    by (auto simp: visit_def Let_def res_def pn_def split: prod.splits option.splits)
qed

lemma visit_inv:
  assumes "runInv env st" "k \<notin> visited st" "map_of (nodeMap env) k = Some node" "keyed env"
    "overallSuccess st"
  shows "runInv env (visit env k node (st\<lparr>queue := q, visited := insert k (visited st)\<rparr>))"
proof -
  define st0 where "st0 = st\<lparr>queue := q, visited := insert k (visited st)\<rparr>"
  obtain result where r: "resultsSoFar (visit env k node st0) = resultsSoFar st0 @ [result]"
     "resultNodeId result = node_id node" "status result = Completed \<or> status result = Failed"
     "orderSoFar (visit env k node st0) = orderSoFar st0 @ [k]"
     "overallSuccess (visit env k node st0) = (overallSuccess st0 \<and> status result \<noteq> Failed)"
    using visit_fields[of env k node st0] by blast
  have mem: "(k, node) \<in> set (nodeMap env)" using assms(3) by (rule map_of_SomeD)
  then have nk: "node_id node = k" using assms(4) by (auto simp: keyed_def)
  have kin: "k \<in> fst ` set (nodeMap env)" using mem by force
  have knew: "k \<notin> set (orderSoFar st)" using assms(1,2) by (auto simp: runInv_def)
  have allc: "\<forall>r \<in> set (resultsSoFar st). status r = Completed"
    using assms(1,5) by (simp add: runInv_def)
  show ?thesis
    unfolding st0_def[symmetric]
    using assms(1,5) r nk kin knew allc
    by (auto simp: runInv_def st0_def)
qed

lemma runInv_queue: "runInv env (st\<lparr>queue := q\<rparr>) = runInv env st"
  by (simp add: runInv_def)

lemma runInv_visited: "runInv env st \<Longrightarrow> runInv env (st\<lparr>queue := q, visited := insert k (visited st)\<rparr>)"
  by (auto simp: runInv_def)

lemma traverse_preserves:
  assumes q: "\<And>st q. I (st\<lparr>queue := q\<rparr>) = I st"
    and v: "\<And>st k q. I st \<Longrightarrow> I (st\<lparr>queue := q, visited := insert k (visited st)\<rparr>)"
    and vis: "\<And>st k node q. I st \<Longrightarrow> k \<notin> visited st \<Longrightarrow> map_of (nodeMap env) k = Some node
                \<Longrightarrow> overallSuccess st
                \<Longrightarrow> I (visit env k node (st\<lparr>queue := q, visited := insert k (visited st)\<rparr>))"
  shows "I st \<Longrightarrow> I (traverse env st)"
  using assms
proof (induction env st rule: traverse.induct)
  case (1 env st)
  note IH = 1(1-3) and I0 = 1(4) and q = 1(5) and v = 1(6) and vis = 1(7)
  show ?case
  proof (cases "queue st")
    case Nil
    then show ?thesis using I0 by simp
  next
    case (Cons currentId rest)
    show ?thesis
    proof (cases "overallSuccess st")
      case False
      then show ?thesis using I0 Cons by simp
    next
      case True
      show ?thesis
      proof (cases "currentId \<in> visited st")
        case vt: True
        have "I (st\<lparr>queue := rest\<rparr>)" using I0 by (simp add: q)
        then have "I (traverse env (st\<lparr>queue := rest\<rparr>))"
          using IH(1)[OF Cons _ vt _ q v vis] True by blast
        then show ?thesis using Cons True vt by simp
      next
        case vf: False
        show ?thesis
        proof (cases "map_of (nodeMap env) currentId")
          case None
          have "I (st\<lparr>queue := rest, visited := insert currentId (visited st)\<rparr>)"
            using I0 by (rule v)
          then have "I (traverse env (st\<lparr>queue := rest, visited := insert currentId (visited st)\<rparr>))"
            using IH(2)[OF Cons _ vf None _ q v vis] True by blast
          then show ?thesis using Cons True vf None by simp
        next
          case (Some node)
          define st1 where "st1 = visit env currentId node (st\<lparr>queue := rest, visited := insert currentId (visited st)\<rparr>)"
          have i1: "I st1"
            unfolding st1_def using I0 vf Some True by (rule vis)
          show ?thesis
          proof (cases "overallSuccess st1")
            case False
            then show ?thesis using Cons True vf Some i1 by (simp add: st1_def Let_def)
          next
            case s1: True
            have "I (st1\<lparr>queue := queue st1 @ filter (\<lambda>nextId. nextId \<notin> visited st1)
                                                             (successors env currentId)\<rparr>)"
              using i1 by (simp add: q)
            then have "I (traverse env (st1\<lparr>queue := queue st1 @ filter (\<lambda>nextId. nextId \<notin> visited st1)
                                                             (successors env currentId)\<rparr>))"
              using IH(3)[OF Cons _ vf Some st1_def _ _ q v vis] True s1 by blast
            then show ?thesis using Cons True vf Some s1 by (simp add: st1_def Let_def)
          qed
        qed
      qed
    qed
  qed
qed

lemma traverse_inv:
  assumes "keyed env"
  shows "runInv env st \<Longrightarrow> runInv env (traverse env st)"
proof (rule traverse_preserves[where I = "runInv env"])
  show "runInv env (st\<lparr>queue := q\<rparr>) = runInv env st" for st :: "'a traversal" and q
    by (rule runInv_queue)
  show "runInv env st \<Longrightarrow> runInv env (st\<lparr>queue := q, visited := insert k (visited st)\<rparr>)"
    for st :: "'a traversal" and k q
    by (rule runInv_visited)
  show "runInv env st \<Longrightarrow> k \<notin> visited st \<Longrightarrow> map_of (nodeMap env) k = Some node \<Longrightarrow> overallSuccess st
          \<Longrightarrow> runInv env (visit env k node (st\<lparr>queue := q, visited := insert k (visited st)\<rparr>))"
    for st :: "'a traversal" and k node q
    using assms by (rule visit_inv[rotated 3])
qed

lemma set_update_subset: "set (AList.update k v al) \<subseteq> insert (k, v) (set al)"
  by (induction al) auto

lemma nodeMap_fold:
  "(k, n) \<in> set (foldl (\<lambda>m n. AList.update (node_id n) n m) m0 ns)
     \<Longrightarrow> (k, n) \<in> set m0 \<or> (n \<in> set ns \<and> node_id n = k)"
proof (induction ns arbitrary: m0)
  case Nil
  then show ?case by simp
next
  case (Cons a ns)
  from Cons.IH[of "AList.update (node_id a) a m0"] Cons.prems
  have "(k, n) \<in> set (AList.update (node_id a) a m0) \<or> (n \<in> set ns \<and> node_id n = k)" by simp
  then show ?case using set_update_subset[of "node_id a" a m0] by auto
qed

lemma nodeMapOf_entry: "(k, n) \<in> set (nodeMapOf ns) \<Longrightarrow> n \<in> set ns \<and> node_id n = k"
  using nodeMap_fold[of k n "[]" ns] by (simp add: nodeMapOf_def)

lemma keyed_envOf: "keyed (envOf sp pcwd req ns es)"
  by (auto simp: keyed_def envOf_def dest: nodeMapOf_entry)

lemma runInv_initial: "runInv env (initial sn w)"
  by (simp add: runInv_def initial_def)

lemma execute_run:
  assumes "execute sp pcwd req w = Inr r"
  shows "\<exists>st. run sp pcwd req w = Inr st \<and> success r = overallSuccess st
            \<and> results r = resultsSoFar st \<and> executionOrder r = orderSoFar st"
  using assms by (auto simp: execute_def split: sum.splits)

subsection \<open>Matching and replacing a reference\<close>














subsection \<open>The context of a node\<close>

lemma outputsOf_snoc:
  "outputsOf (rs @ [r]) =
     (case nodeOutput r of
        Some out \<Rightarrow> if out \<noteq> [] then AList.update (resultNodeId r) (rawOutput out) (outputsOf rs) else outputsOf rs
      | None \<Rightarrow> outputsOf rs)"
  unfolding outputsOf_def by simp





subsection \<open>The run executes the nodes of the order and nothing else\<close>

lemma executeInOrder_append:
  "executeInOrder env (xs @ ys) rs w =
     (case executeInOrder env xs rs w of
        None \<Rightarrow> None
      | Some (rs1, w1) \<Rightarrow> executeInOrder env ys rs1 w1)"
  by (induction xs arbitrary: rs w) (auto split: option.splits prod.splits)



lemma visit_replay:
  assumes "replayInv env w0 st" "map_of (nodeMap env) k = Some node" "keyed env"
  shows "replayInv env w0 (visit env k node (st\<lparr>queue := q, visited := V\<rparr>))"
proof -
  define pn where "pn = processNodeTemplates node \<lparr>outputs = outputsOf (resultsSoFar st), nodeLabels = labels env\<rparr>"
  obtain r w1 where e: "executeNode (spawn env) (processCwd env) pn (root env) (world st) = (r, w1)"
    by (cases "executeNode (spawn env) (processCwd env) pn (root env) (world st)") auto
  have o: "outputsSoFar st = outputsOf (resultsSoFar st)"
    and x: "executeInOrder env (orderSoFar st) [] w0 = Some (resultsSoFar st, world st)"
    using assms(1) by (simp_all add: replayInv_def)
  have "(k, node) \<in> set (nodeMap env)" using assms(2) by (rule map_of_SomeD)
  then have nk: "node_id node = k" using assms(3) by (auto simp: keyed_def)
  have rk: "resultNodeId r = k"
    using executeNode_result[of "spawn env" "processCwd env" pn "root env" "world st"] e nk
    by (simp add: pn_def processNodeTemplates_nid)
  define st' where "st' = visit env k node (st\<lparr>queue := q, visited := V\<rparr>)"
  have f: "orderSoFar st' = orderSoFar st @ [k]" "resultsSoFar st' = resultsSoFar st @ [r]"
    "world st' = w1"
    "outputsSoFar st' = (case nodeOutput r of
                           Some out \<Rightarrow> if out \<noteq> [] then AList.update k (rawOutput out) (outputsSoFar st)
                                       else outputsSoFar st
                         | None \<Rightarrow> outputsSoFar st)"
    using e by (auto simp: st'_def visit_def Let_def pn_def o split: option.splits)
  have a: "outputsSoFar st' = outputsOf (resultsSoFar st')"
    unfolding f by (simp add: outputsOf_snoc rk o split: option.splits)
  have "executeInOrder env (orderSoFar st @ [k]) [] w0 = Some (resultsSoFar st @ [r], w1)"
    unfolding executeInOrder_append x using assms(2) e by (simp add: pn_def)
  then have b: "executeInOrder env (orderSoFar st') [] w0 = Some (resultsSoFar st', world st')"
    by (simp only: f)
  show ?thesis unfolding st'_def[symmetric] replayInv_def using a b by simp
qed

lemma traverse_replay:
  assumes "keyed env"
  shows "replayInv env w0 st \<Longrightarrow> replayInv env w0 (traverse env st)"
proof (rule traverse_preserves[where I = "replayInv env w0"])
  show "replayInv env w0 (st\<lparr>queue := q\<rparr>) = replayInv env w0 st" for st :: "'a traversal" and q
    by (simp add: replayInv_def)
  show "replayInv env w0 st \<Longrightarrow> replayInv env w0 (st\<lparr>queue := q, visited := insert k (visited st)\<rparr>)"
    for st :: "'a traversal" and k q
    by (simp add: replayInv_def)
  show "replayInv env w0 st \<Longrightarrow> k \<notin> visited st \<Longrightarrow> map_of (nodeMap env) k = Some node \<Longrightarrow> overallSuccess st
          \<Longrightarrow> replayInv env w0 (visit env k node (st\<lparr>queue := q, visited := insert k (visited st)\<rparr>))"
    for st :: "'a traversal" and k node q
    using assms by (simp add: visit_replay)
qed

lemma run_facts:
  assumes "run sp pcwd req w = Inr st"
  shows "\<exists>ns es. nodes req = Some ns \<and> edges req = Some es
           \<and> runInv (envOf sp pcwd req ns es) st \<and> replayInv (envOf sp pcwd req ns es) w st"
proof -
  from assms obtain ns es sn where h: "nodes req = Some ns" "edges req = Some es"
     "st = traverse (envOf sp pcwd req ns es) (initial sn w)"
    by (auto simp: run_def split: option.splits sum.splits)
  have "replayInv (envOf sp pcwd req ns es) w (initial sn w)"
    by (simp add: replayInv_def initial_def outputsOf_def)
  then have "replayInv (envOf sp pcwd req ns es) w st"
    unfolding h(3) by (rule traverse_replay[OF keyed_envOf])
  moreover have "runInv (envOf sp pcwd req ns es) st"
    unfolding h(3) by (rule traverse_inv[OF keyed_envOf runInv_initial])
  ultimately show ?thesis using h by blast
qed

subsection \<open>Lines\<close>






subsection \<open>Worked requests\<close>

lemma failingRequest_execute: "execute logShell ''/'' failingRequest [] = Inr failingResponse"
  by code_simp

lemma failingRequest_log: "shellLog (run logShell ''/'' failingRequest []) = Some [''exit 3'']"
  by code_simp

lemma diamondRequest_execute:
  "diamondOutcome (execute logShell ''/'' diamondRequest [])
     = Some (True, [Completed, Completed, Completed, Completed], [''t'', ''a'', ''b'', ''c''])"
  by code_simp



subsection \<open>A failed node ends the traversal\<close>

text \<open>
  Claim C1. Whenever the handler answers a request with a response \<open>r\<close>: if the result
  at some position of \<open>results\<close> has status \<open>Failed\<close>, that position is the last one of
  \<open>results\<close> and of \<open>executionOrder\<close>, and \<open>success\<close> is false; \<open>success\<close> is true exactly
  when no result has failed. The results and the state the outside world is left in
  are those of executing the nodes of \<open>executionOrder\<close> one after the other and
  nothing else: after the failed node, the last of the order, no node is executed
  and no command is run, whatever the queue still held.
\<close>

theorem execute_stops_on_failure:
  assumes "execute sp pcwd req w = Inr r"
  shows "map resultNodeId (results r) = executionOrder r
     \<and> (\<exists>st ns es. run sp pcwd req w = Inr st \<and> nodes req = Some ns \<and> edges req = Some es
           \<and> executeInOrder (envOf sp pcwd req ns es) (executionOrder r) [] w
               = Some (results r, world st))
     \<and> (success r \<longleftrightarrow> (\<forall>x \<in> set (results r). status x \<noteq> Failed))
     \<and> (\<forall>i < length (results r). status (results r ! i) = Failed \<longrightarrow>
           Suc i = length (results r) \<and> Suc i = length (executionOrder r) \<and> \<not> success r)"
proof -
  obtain st where st: "run sp pcwd req w = Inr st" "success r = overallSuccess st"
     "results r = resultsSoFar st" "executionOrder r = orderSoFar st"
    using execute_run[OF assms] by blast
  obtain ns es where i: "nodes req = Some ns" "edges req = Some es"
     "runInv (envOf sp pcwd req ns es) st" "replayInv (envOf sp pcwd req ns es) w st"
    using run_facts[OF st(1)] by blast
  have m: "map resultNodeId (results r) = executionOrder r"
    using i(3) by (simp add: runInv_def st)
  have "executeInOrder (envOf sp pcwd req ns es) (executionOrder r) [] w = Some (results r, world st)"
    using i(4) by (simp add: replayInv_def st)
  then have e: "\<exists>st ns es. run sp pcwd req w = Inr st \<and> nodes req = Some ns \<and> edges req = Some es
           \<and> executeInOrder (envOf sp pcwd req ns es) (executionOrder r) [] w
               = Some (results r, world st)"
    using st(1) i(1,2) by blast
  have bl: "\<forall>x \<in> set (butlast (results r)). status x = Completed"
    using i(3) by (simp add: runInv_def st)
  have s: "success r \<longleftrightarrow> (\<forall>x \<in> set (results r). status x \<noteq> Failed)"
  proof (cases "overallSuccess st")
    case True
    then show ?thesis using i(3) by (auto simp: runInv_def st)
  next
    case False
    then have "results r \<noteq> []" "status (last (results r)) = Failed"
      using i(3) by (simp_all add: runInv_def st)
    then have "\<exists>x \<in> set (results r). status x = Failed" using last_in_set by blast
    then show ?thesis using False by (auto simp: st)
  qed
  have f: "Suc i = length (results r) \<and> Suc i = length (executionOrder r) \<and> \<not> success r"
    if il: "i < length (results r)" and fl: "status (results r ! i) = Failed" for i
  proof -
    have "\<not> i < length (butlast (results r))"
    proof
      assume a: "i < length (butlast (results r))"
      then have "butlast (results r) ! i \<in> set (butlast (results r))" by (rule nth_mem)
      then have "status (butlast (results r) ! i) = Completed" using bl by blast
      then show False using fl a by (simp add: nth_butlast)
    qed
    then have l: "Suc i = length (results r)" using il by simp
    have "length (executionOrder r) = length (results r)" using arg_cong[OF m, of length] by simp
    moreover have "\<not> success r" using s il fl nth_mem by blast
    ultimately show ?thesis using l by simp
  qed
  show ?thesis using m e s f by blast
qed

text \<open>The graph \<open>trigger -> shellA -> shellB\<close> whose \<open>shellA\<close> exits with code 3: the
  response is unsuccessful, the order is \<open>trigger\<close>, \<open>shellA\<close>, \<open>shellB\<close> has no result,
  and the only command the shell was given is \<open>exit 3\<close>.\<close>

theorem execute_stops_on_failure_witness:
  "execute logShell ''/'' failingRequest [] = Inr failingResponse
   \<and> status (results failingResponse ! 1) = Failed
   \<and> length (results failingResponse) = 2
   \<and> executionOrder failingResponse = [''trigger'', ''shellA'']
   \<and> \<not> success failingResponse
   \<and> ''shellB'' \<notin> resultNodeId ` set (results failingResponse)
   \<and> shellLog (run logShell ''/'' failingRequest []) = Some [''exit 3'']"
proof -
  have a: "status (results failingResponse ! 1) = Failed" "(1::nat) < length (results failingResponse)"
    "executionOrder failingResponse = [''trigger'', ''shellA'']"
    by (simp_all add: failingResponse_def)
  note t = execute_stops_on_failure [OF failingRequest_execute]
  have b: "Suc 1 = length (results failingResponse) \<and> \<not> success failingResponse"
    using t a(1,2) by blast
  have "map resultNodeId (results failingResponse) = executionOrder failingResponse"
    using t by blast
  then have "resultNodeId ` set (results failingResponse) = set [''trigger'', ''shellA'']"
    unfolding a(3) by (metis set_map)
  then have c: "''shellB'' \<notin> resultNodeId ` set (results failingResponse)" by simp
  show ?thesis using failingRequest_execute failingRequest_log a b c by simp
qed

subsection \<open>The execution order\<close>

text \<open>
  Claim C10. Whenever the handler answers a request with a response \<open>r\<close>:
  \<open>executionOrder\<close> has no id twice, every id in it is the id of a node of the \<open>nodes\<close>
  array, and \<open>results\<close> has as many entries as \<open>executionOrder\<close>, the one at each
  position carrying the id at that position. An id on the queue that no node has
  is the id of no node of the array, so it is in neither list.
\<close>

theorem execute_order_wellformed:
  assumes "execute sp pcwd req w = Inr r"
  shows "distinct (executionOrder r)
     \<and> (\<exists>ns. nodes req = Some ns \<and> set (executionOrder r) \<subseteq> node_id ` set ns)
     \<and> length (results r) = length (executionOrder r)
     \<and> (\<forall>i < length (executionOrder r). resultNodeId (results r ! i) = executionOrder r ! i)"
proof -
  obtain st where st: "run sp pcwd req w = Inr st" "success r = overallSuccess st"
     "results r = resultsSoFar st" "executionOrder r = orderSoFar st"
    using execute_run[OF assms] by blast
  obtain ns es where i: "nodes req = Some ns" "runInv (envOf sp pcwd req ns es) st"
    using run_facts[OF st(1)] by blast
  have m: "map resultNodeId (results r) = executionOrder r"
    and d: "distinct (executionOrder r)"
    and sub: "set (executionOrder r) \<subseteq> fst ` set (nodeMapOf ns)"
    using i(2) by (simp_all add: runInv_def st envOf_def)
  have "fst ` set (nodeMapOf ns) \<subseteq> node_id ` set ns"
    using nodeMapOf_entry by force
  then have ids: "set (executionOrder r) \<subseteq> node_id ` set ns" using sub by blast
  have l: "length (results r) = length (executionOrder r)"
    using arg_cong[OF m, of length] by simp
  have n: "resultNodeId (results r ! i) = executionOrder r ! i" if "i < length (executionOrder r)" for i
    using that l nth_map[of i "results r" resultNodeId] by (simp add: m)
  show ?thesis using d i(1) ids l n by blast
qed

text \<open>The graph with a node reached twice, a cycle and an edge to the id \<open>ghost\<close>: every
  node is executed once, in breadth-first order, and \<open>ghost\<close> is skipped.\<close>

theorem execute_order_wellformed_witness:
  "(\<exists>r. execute logShell ''/'' diamondRequest [] = Inr r
        \<and> executionOrder r = [''t'', ''a'', ''b'', ''c'']
        \<and> map resultNodeId (results r) = [''t'', ''a'', ''b'', ''c'']
        \<and> ''ghost'' \<notin> set (executionOrder r))"
proof -
  obtain r where r: "execute logShell ''/'' diamondRequest [] = Inr r"
    "executionOrder r = [''t'', ''a'', ''b'', ''c'']"
    using diamondRequest_execute by (auto simp: diamondOutcome_def split: sum.splits)
  note t = execute_order_wellformed [OF r(1)]
  have l: "length (results r) = 4" using t r(2) by simp
  have n: "resultNodeId (results r ! i) = executionOrder r ! i" if "i < 4" for i
    using t that r(2) by simp
  have "map resultNodeId (results r) = [''t'', ''a'', ''b'', ''c'']"
    using l n[of 0] n[of 1] n[of 2] n[of 3] r(2)
    by (auto simp: list_eq_iff_nth_eq less_Suc_eq numeral_eq_Suc)
  then show ?thesis using r by auto
qed

subsection \<open>Template references are resolved from the outputs produced so far\<close>



end
